theory Spec2Isabelle
  imports Main "HOL-Library.Word" "HOL-Library.AList" "HOL-Library.Multiset"
begin

section \<open>The directed graph of \<^verbatim>\<open>directed_graph/DirectedGraph.cpp\<close>\<close>

text \<open>
  The graph keeps its vertices on the free store and refers to them by address, so the
  model has an explicit store: a partial map from addresses to vertex objects. A vertex
  handle (\<^verbatim>\<open>Vertex*\<close>, \<^verbatim>\<open>Vertex&\<close>) is an address. The two hash containers are lists
  of entries in iteration order; the order the standard leaves open is the order of the
  list, and the results below that speak about rendering do not depend on it.
\<close>

subsection \<open>Data\<close>

type_synonym addr = nat
type_synonym size_t = "64 word"
type_synonym c_int = "32 word"

text \<open>
  What can stop a run: a failed \<^verbatim>\<open>assert\<close> (the assertions of \<^verbatim>\<open>addEdge\<close>, taken as
  compiled in), and a read through the address of a destroyed vertex. \<open>AddressInUse\<close>
  marks a sequence of calls that cannot happen: one that has \<^verbatim>\<open>make_unique\<close> return an
  address at which an object lives.
\<close>

datatype error = AssertionFailed | DanglingPointer | AddressInUse

text \<open>\<^verbatim>\<open>class Vertex\<close>: the private fields.\<close>

record Vertex =
  m_id :: size_t
  m_data :: c_int

type_synonym store = "addr \<rightharpoonup> Vertex"

text \<open>
  \<^verbatim>\<open>class DirectedGraph\<close>: the private fields. An entry of \<open>m_vertices\<close> is the key
  (\<^verbatim>\<open>const Vertex*\<close>) and the address held by the owning \<^verbatim>\<open>unique_ptr\<close>; an entry of
  \<open>m_edges\<close> is the key and the elements of its \<^verbatim>\<open>unordered_set\<close>.
\<close>

record DirectedGraph =
  m_vertexCounter :: size_t
  m_vertices :: "(addr \<times> addr) list"
  m_edges :: "(addr \<times> addr list) list"

subsection \<open>Vertex\<close>

definition Vertex_new :: "size_t \<Rightarrow> c_int \<Rightarrow> Vertex" where
  "Vertex_new ident d = \<lparr>m_id = ident, m_data = d\<rparr>"

definition getID :: "Vertex \<Rightarrow> size_t" where
  "getID v = m_id v"

definition getData :: "Vertex \<Rightarrow> c_int" where
  "getData v = m_data v"

definition setData :: "c_int \<Rightarrow> Vertex \<Rightarrow> Vertex" where
  "setData d v = v\<lparr>m_data := d\<rparr>"

definition digit_char :: "nat \<Rightarrow> char" where
  "digit_char d = ''0123456789'' ! d"

text \<open>\<^verbatim>\<open>std::to_string\<close> on an unsigned value: the decimal digits, no sign, no padding.\<close>

fun to_string :: "nat \<Rightarrow> string" where
  "to_string n =
     (if n < 10 then [digit_char n] else to_string (n div 10) @ [digit_char (n mod 10)])"

declare to_string.simps [simp del]

definition Vertex_toString :: "Vertex \<Rightarrow> string" where
  "Vertex_toString v = ''v'' @ to_string (unat (m_id v))"

definition Vertex_eq :: "Vertex \<Rightarrow> Vertex \<Rightarrow> bool" where
  "Vertex_eq this that = (getID this = getID that)"

subsection \<open>The graph's operations\<close>

definition DirectedGraph_new :: DirectedGraph where
  "DirectedGraph_new = \<lparr>m_vertexCounter = 0, m_vertices = [], m_edges = []\<rparr>"

text \<open>
  \<^verbatim>\<open>m_edges[&u]\<close>: the set stored under the key, after inserting an empty set when the
  key is missing. The result is that set and the container.
\<close>

definition subscript :: "addr \<Rightarrow> (addr \<times> addr list) list \<Rightarrow> addr list \<times> (addr \<times> addr list) list" where
  "subscript k m = (case map_of m k of Some ss \<Rightarrow> (ss, m) | None \<Rightarrow> ([], m @ [(k, [])]))"

text \<open>
  \<^verbatim>\<open>addVertex\<close>. The first argument is the address \<^verbatim>\<open>make_unique\<close> returns, which the
  allocator chooses among the addresses that hold no object. \<^verbatim>\<open>emplace\<close> inserts
  nothing when the key is there already and destroys the node it built, the vertex with it.
  Where the new entry comes in the iteration is open in the source; here, as in
  \<^verbatim>\<open>addEdge\<close> and \<open>subscript\<close>, it comes last, and \<open>reordered\<close> below stands for every
  other order.
\<close>

definition addVertex :: "addr \<Rightarrow> c_int \<Rightarrow> store \<times> DirectedGraph \<Rightarrow> addr \<times> store \<times> DirectedGraph" where
  "addVertex rawPointer d s =
     (case s of (h, g) \<Rightarrow>
        let h1 = h(rawPointer \<mapsto> Vertex_new (m_vertexCounter g) d);
            g1 = g\<lparr>m_vertexCounter := m_vertexCounter g + 1\<rparr>
        in (case map_of (m_vertices g1) rawPointer of
              None \<Rightarrow> (rawPointer, h1, g1\<lparr>m_vertices := m_vertices g1 @ [(rawPointer, rawPointer)]\<rparr>)
            | Some _ \<Rightarrow> (rawPointer, h1(rawPointer := None), g1)))"

definition addEdge :: "addr \<Rightarrow> addr \<Rightarrow> DirectedGraph \<Rightarrow> error + (bool \<times> DirectedGraph)" where
  "addEdge u v g =
     (if map_of (m_vertices g) u = None then Inl AssertionFailed
      else if map_of (m_vertices g) v = None then Inl AssertionFailed
      else (case subscript u (m_edges g) of (uSuccessors, edges1) \<Rightarrow>
              if v \<in> set uSuccessors then Inr (False, g\<lparr>m_edges := edges1\<rparr>)
              else Inr (True, g\<lparr>m_edges := AList.update u (uSuccessors @ [v]) edges1\<rparr>)))"

text \<open>The loop of \<^verbatim>\<open>removeVertex\<close> over the entries of \<open>m_edges\<close>.\<close>

fun eraseIncoming :: "addr \<Rightarrow> (addr \<times> addr list) list \<Rightarrow> (addr \<times> addr list) list" where
  "eraseIncoming u [] = []"
| "eraseIncoming u ((k, successors) # rest) =
     (k, if u \<in> set successors then removeAll u successors else successors) # eraseIncoming u rest"

text \<open>Erasing an entry of \<open>m_vertices\<close> destroys its \<^verbatim>\<open>unique_ptr\<close>, which deletes the vertex.\<close>

definition removeVertex :: "addr \<Rightarrow> store \<times> DirectedGraph \<Rightarrow> bool \<times> store \<times> DirectedGraph" where
  "removeVertex u s =
     (case s of (h, g) \<Rightarrow>
        (case map_of (m_vertices g) u of
           Some owned \<Rightarrow>
             (True, h(owned := None),
              g\<lparr>m_vertices := AList.delete u (m_vertices g),
                m_edges := eraseIncoming u (AList.delete u (m_edges g))\<rparr>)
         | None \<Rightarrow> (False, h, g)))"

definition removeEdge :: "addr \<Rightarrow> addr \<Rightarrow> DirectedGraph \<Rightarrow> bool \<times> DirectedGraph" where
  "removeEdge u v g =
     (if map_of (m_vertices g) u \<noteq> None \<and> map_of (m_vertices g) v \<noteq> None
      then (case subscript u (m_edges g) of (uSuccessors, edges1) \<Rightarrow>
              if v \<in> set uSuccessors
              then (True, g\<lparr>m_edges := AList.update u (removeAll v uSuccessors) edges1\<rparr>)
              else (False, g\<lparr>m_edges := edges1\<rparr>))
      else (False, g))"

text \<open>The two overloads of \<^verbatim>\<open>getVertices\<close>: the first copies the owned pointers, the second the keys.\<close>

definition getVertices :: "DirectedGraph \<Rightarrow> addr list" where
  "getVertices g = map snd (m_vertices g)"

definition getVertices_const :: "DirectedGraph \<Rightarrow> addr list" where
  "getVertices_const g = map fst (m_vertices g)"

text \<open>The two overloads of \<^verbatim>\<open>getSuccessors\<close>; the first one goes through \<^verbatim>\<open>m_edges[&u]\<close>.\<close>

definition getSuccessors :: "addr \<Rightarrow> DirectedGraph \<Rightarrow> addr list \<times> DirectedGraph" where
  "getSuccessors u g =
     (case subscript u (m_edges g) of (uSuccessors, edges1) \<Rightarrow> (uSuccessors, g\<lparr>m_edges := edges1\<rparr>))"

definition getSuccessors_const :: "addr \<Rightarrow> DirectedGraph \<Rightarrow> addr list" where
  "getSuccessors_const u g =
     (case map_of (m_edges g) u of Some uSuccessors \<Rightarrow> uSuccessors | None \<Rightarrow> [])"

text \<open>
  \<^verbatim>\<open>toSortedVertices\<close> reads the id of every vertex it sorts; reading through the address
  of a destroyed vertex has no defined result and is an error of the model. The sorted
  sequence carries each address with the object found there. \<^verbatim>\<open>std::sort\<close> fixes the
  result only up to the order of equal ids; \<open>sort_key\<close> is one such result.
\<close>

fun deref_all :: "store \<Rightarrow> addr list \<Rightarrow> error + (addr \<times> Vertex) list" where
  "deref_all h [] = Inr []"
| "deref_all h (p # ps) =
     (case h p of
        None \<Rightarrow> Inl DanglingPointer
      | Some v \<Rightarrow> (case deref_all h ps of Inl e \<Rightarrow> Inl e | Inr vs \<Rightarrow> Inr ((p, v) # vs)))"

definition toSortedVertices :: "store \<Rightarrow> addr list \<Rightarrow> error + (addr \<times> Vertex) list" where
  "toSortedVertices h ps =
     (case deref_all h ps of Inl e \<Rightarrow> Inl e | Inr vs \<Rightarrow> Inr (sort_key (\<lambda>pv. getID (snd pv)) vs))"

definition vertex_line :: "Vertex \<Rightarrow> string" where
  "vertex_line v = ''    '' @ Vertex_toString v @ [CHR 0x0A]"

definition edge_line :: "Vertex \<Rightarrow> Vertex \<Rightarrow> string" where
  "edge_line u v = ''    '' @ Vertex_toString u @ '' -> '' @ Vertex_toString v @ [CHR 0x0A]"

text \<open>The second loop of \<^verbatim>\<open>toString\<close>, over the sorted vertices.\<close>

fun edge_lines :: "store \<Rightarrow> (addr \<times> addr list) list \<Rightarrow> (addr \<times> Vertex) list \<Rightarrow> error + string" where
  "edge_lines h edges [] = Inr []"
| "edge_lines h edges ((p, u) # rest) =
     (case map_of edges p of
        None \<Rightarrow> edge_lines h edges rest
      | Some uSuccessors \<Rightarrow>
          (case toSortedVertices h uSuccessors of
             Inl e \<Rightarrow> Inl e
           | Inr uSuccessorsSorted \<Rightarrow>
               (case edge_lines h edges rest of
                  Inl e \<Rightarrow> Inl e
                | Inr s \<Rightarrow> Inr (concat (map (\<lambda>qv. edge_line u (snd qv)) uSuccessorsSorted) @ s))))"

definition toString :: "store \<Rightarrow> DirectedGraph \<Rightarrow> error + string" where
  "toString h g =
     (case toSortedVertices h (getVertices_const g) of
        Inl e \<Rightarrow> Inl e
      | Inr sortedVertices \<Rightarrow>
          (case edge_lines h (m_edges g) sortedVertices of
             Inl e \<Rightarrow> Inl e
           | Inr es \<Rightarrow>
               Inr (''DirectedGraph:'' @ [CHR 0x0A] @ ''  vertices:'' @ [CHR 0x0A]
                    @ concat (map (\<lambda>pv. vertex_line (snd pv)) sortedVertices)
                    @ ''  edges:'' @ [CHR 0x0A] @ es)))"

subsection \<open>The order of the containers\<close>

text \<open>
  The standard leaves open in which order an \<^verbatim>\<open>unordered_map\<close> or \<^verbatim>\<open>unordered_set\<close>
  iterates, and an insertion may change it. The operations above put a new entry last;
  \<open>reordered g g'\<close> says that \<open>g'\<close> holds the entries of \<open>g\<close> in any other order: the same
  entries of \<open>m_vertices\<close>, the same keys of \<open>m_edges\<close>, each with the same elements.
\<close>

definition reordered :: "DirectedGraph \<Rightarrow> DirectedGraph \<Rightarrow> bool" where
  "reordered g g' =
     (m_vertexCounter g' = m_vertexCounter g
      \<and> mset (m_vertices g') = mset (m_vertices g)
      \<and> mset (map (\<lambda>(k, ss). (k, mset ss)) (m_edges g'))
          = mset (map (\<lambda>(k, ss). (k, mset ss)) (m_edges g)))"

text \<open>One such order: the newest entry first.\<close>

definition newest_first :: "DirectedGraph \<Rightarrow> DirectedGraph" where
  "newest_first g =
     g\<lparr>m_vertices := rev (m_vertices g),
       m_edges := rev (map (\<lambda>(k, ss). (k, rev ss)) (m_edges g))\<rparr>"

subsection \<open>The reference harness\<close>

text \<open>
  \<^verbatim>\<open>test_DirectedGraph_setup\<close> of \<^verbatim>\<open>main.cpp\<close>, up to the comparison: the results of the
  five \<^verbatim>\<open>addEdge\<close> calls in call order and the rendering. \<open>a0\<close> to \<open>a3\<close> are the
  addresses the four allocations return and \<open>h0\<close> is the store before the test. \<open>ord i\<close>
  is the order in which the containers iterate after the \<open>i\<close>-th call.
\<close>

definition test_DirectedGraph_setup ::
  "(nat \<Rightarrow> DirectedGraph \<Rightarrow> DirectedGraph) \<Rightarrow> addr \<Rightarrow> addr \<Rightarrow> addr \<Rightarrow> addr \<Rightarrow> store
     \<Rightarrow> error + (bool list \<times> string)" where
  "test_DirectedGraph_setup ord a0 a1 a2 a3 h0 =
     (case addVertex a0 0 (h0, DirectedGraph_new) of (v0, h1, g1) \<Rightarrow>
     (case addVertex a1 1 (h1, ord 1 g1) of (v1, h2, g2) \<Rightarrow>
     (case addVertex a2 2 (h2, ord 2 g2) of (v2, h3, g3) \<Rightarrow>
     (case addVertex a3 3 (h3, ord 3 g3) of (v3, h4, g4) \<Rightarrow>
     (case addEdge v0 v0 (ord 4 g4) of Inl e \<Rightarrow> Inl e | Inr (b1, g5) \<Rightarrow>
     (case addEdge v0 v1 (ord 5 g5) of Inl e \<Rightarrow> Inl e | Inr (b2, g6) \<Rightarrow>
     (case addEdge v0 v3 (ord 6 g6) of Inl e \<Rightarrow> Inl e | Inr (b3, g7) \<Rightarrow>
     (case addEdge v2 v3 (ord 7 g7) of Inl e \<Rightarrow> Inl e | Inr (b4, g8) \<Rightarrow>
     (case addEdge v2 v3 (ord 8 g8) of Inl e \<Rightarrow> Inl e | Inr (b5, g9) \<Rightarrow>
     (case toString h4 (ord 9 g9) of Inl e \<Rightarrow> Inl e
      | Inr result \<Rightarrow> Inr ([b1, b2, b3, b4, b5], result)))))))))))"

subsection \<open>Sequences of calls\<close>

text \<open>
  The public operations as calls, with \<^verbatim>\<open>Vertex::setData\<close> through a handle, and the
  value each returns.
\<close>

datatype call =
    AddVertex addr c_int
  | AddEdge addr addr
  | RemoveVertex addr
  | RemoveEdge addr addr
  | GetVertices
  | GetVerticesConst
  | GetSuccessors addr
  | GetSuccessorsConst addr
  | ToString
  | SetData addr c_int

datatype result = Handle addr | Flag bool | Handles "addr list" | Text string | Done

fun step :: "call \<Rightarrow> store \<times> DirectedGraph \<Rightarrow> error + (result \<times> store \<times> DirectedGraph)" where
  "step (AddVertex p d) (h, g) =
     (if h p \<noteq> None then Inl AddressInUse
      else (case addVertex p d (h, g) of (q, s') \<Rightarrow> Inr (Handle q, s')))"
| "step (AddEdge u v) (h, g) =
     (case addEdge u v g of Inl e \<Rightarrow> Inl e | Inr (b, g') \<Rightarrow> Inr (Flag b, h, g'))"
| "step (RemoveVertex u) (h, g) =
     (case removeVertex u (h, g) of (b, s') \<Rightarrow> Inr (Flag b, s'))"
| "step (RemoveEdge u v) (h, g) =
     (case removeEdge u v g of (b, g') \<Rightarrow> Inr (Flag b, h, g'))"
| "step GetVertices (h, g) = Inr (Handles (getVertices g), h, g)"
| "step GetVerticesConst (h, g) = Inr (Handles (getVertices_const g), h, g)"
| "step (GetSuccessors u) (h, g) =
     (case getSuccessors u g of (ss, g') \<Rightarrow> Inr (Handles ss, h, g'))"
| "step (GetSuccessorsConst u) (h, g) = Inr (Handles (getSuccessors_const u g), h, g)"
| "step ToString (h, g) =
     (case toString h g of Inl e \<Rightarrow> Inl e | Inr s \<Rightarrow> Inr (Text s, h, g))"
| "step (SetData p d) (h, g) =
     (case h p of None \<Rightarrow> Inl DanglingPointer | Some v \<Rightarrow> Inr (Done, h(p \<mapsto> setData d v), g))"

fun is_query :: "call \<Rightarrow> bool" where
  "is_query GetVertices = True"
| "is_query GetVerticesConst = True"
| "is_query (GetSuccessors u) = True"
| "is_query (GetSuccessorsConst u) = True"
| "is_query ToString = True"
| "is_query c = False"

text \<open>
  A sequence of calls, run from a state. The result is the final state and the ids read
  through the handles that the \<^verbatim>\<open>addVertex\<close> calls return, each read when its call
  returns, in call order.
\<close>

fun run_calls :: "call list \<Rightarrow> store \<times> DirectedGraph \<Rightarrow> error + (size_t list \<times> store \<times> DirectedGraph)" where
  "run_calls [] s = Inr ([], s)"
| "run_calls (c # cs) s =
     (case step c s of
        Inl e \<Rightarrow> Inl e
      | Inr (Handle p, h', g') \<Rightarrow>
          (case h' p of
             None \<Rightarrow> Inl DanglingPointer
           | Some v \<Rightarrow>
               (case run_calls cs (h', g') of
                  Inl e \<Rightarrow> Inl e
                | Inr (ids, s'') \<Rightarrow> Inr (getID v # ids, s'')))
      | Inr (r, s') \<Rightarrow> run_calls cs s')"

text \<open>The ids of the handles returned by a sequence of calls on a new graph.\<close>

definition returned_ids :: "store \<Rightarrow> call list \<Rightarrow> size_t list option" where
  "returned_ids h0 cs =
     (case run_calls cs (h0, DirectedGraph_new) of Inl e \<Rightarrow> None | Inr (ids, s) \<Rightarrow> Some ids)"

subsection \<open>What a state stands for\<close>

text \<open>\<^verbatim>\<open>m_vertices.find(&u) != m_vertices.end()\<close>: the graph owns \<open>u\<close>.\<close>

definition owns :: "DirectedGraph \<Rightarrow> addr \<Rightarrow> bool" where
  "owns g u = (map_of (m_vertices g) u \<noteq> None)"

text \<open>The directed edges a graph holds: the pairs of a key of \<open>m_edges\<close> and a member of its set.\<close>

definition edges_of :: "DirectedGraph \<Rightarrow> (addr \<times> addr) set" where
  "edges_of g = set (concat (map (\<lambda>(k, ss). map (Pair k) ss) (m_edges g)))"

definition id_at :: "store \<Rightarrow> addr \<Rightarrow> size_t option" where
  "id_at h p = map_option getID (h p)"

text \<open>The ids of the owned vertices, in the order of \<^verbatim>\<open>getVertices\<close>, and as a set.\<close>

definition ids_of :: "store \<Rightarrow> DirectedGraph \<Rightarrow> size_t option list" where
  "ids_of h g = map (id_at h) (getVertices_const g)"

definition vertex_ids :: "store \<Rightarrow> DirectedGraph \<Rightarrow> size_t set" where
  "vertex_ids h g = Option.these (set (ids_of h g))"

text \<open>The edges as pairs of ids.\<close>

definition edge_ids :: "store \<Rightarrow> DirectedGraph \<Rightarrow> (size_t \<times> size_t) set" where
  "edge_ids h g =
     Option.these ((\<lambda>(u, v). case (id_at h u, id_at h v) of
                               (Some i, Some j) \<Rightarrow> Some (i, j)
                             | _ \<Rightarrow> None) ` edges_of g)"

subsection \<open>Invariants\<close>

text \<open>
  The lists stand for hash containers: no key twice in a map, no element twice in a set.
\<close>

definition containers_ok :: "DirectedGraph \<Rightarrow> bool" where
  "containers_ok g =
     (distinct (map fst (m_vertices g)) \<and> distinct (map fst (m_edges g))
      \<and> (\<forall>(k, ss) \<in> set (m_edges g). distinct ss))"

text \<open>Every entry of \<open>m_vertices\<close> is keyed by the address of the vertex it owns.\<close>

definition owned_ok :: "DirectedGraph \<Rightarrow> bool" where
  "owned_ok g = (\<forall>(k, p) \<in> set (m_vertices g). p = k)"

text \<open>
  The invariant of the adjacency mapping: a key refers to an owned vertex unless its set
  is empty, and every member of every set refers to an owned vertex.
\<close>

definition edges_ok :: "DirectedGraph \<Rightarrow> bool" where
  "edges_ok g =
     (\<forall>(k, ss) \<in> set (m_edges g). (ss \<noteq> [] \<longrightarrow> owns g k) \<and> (\<forall>v \<in> set ss. owns g v))"

text \<open>Every owned vertex is alive in the store, and no two owned vertices have the same id.\<close>

definition store_ok :: "store \<Rightarrow> DirectedGraph \<Rightarrow> bool" where
  "store_ok h g = (None \<notin> set (ids_of h g) \<and> distinct (ids_of h g))"

definition graph_ok :: "store \<Rightarrow> DirectedGraph \<Rightarrow> bool" where
  "graph_ok h g = (containers_ok g \<and> owned_ok g \<and> edges_ok g \<and> store_ok h g)"

text \<open>Every id in use is below the counter.\<close>

definition ids_below :: "store \<Rightarrow> DirectedGraph \<Rightarrow> bool" where
  "ids_below h g = (\<forall>i. Some i \<in> set (ids_of h g) \<longrightarrow> i < m_vertexCounter g)"

subsection \<open>Runs on a new graph\<close>

text \<open>The ids of the vertices the graph owns after a sequence of calls on a new graph.\<close>

definition owned_ids_after :: "store \<Rightarrow> call list \<Rightarrow> size_t option list option" where
  "owned_ids_after h0 cs =
     (case run_calls cs (h0, DirectedGraph_new) of
        Inl e \<Rightarrow> None
      | Inr (ids, h, g) \<Rightarrow> Some (ids_of h g))"

text \<open>
  A long sequence: one vertex that stays, then \<open>2 ^ 64 - 1\<close> times a vertex added and
  removed again, then one more vertex. The allocator may hand out the address of the
  removed vertex each time.
\<close>

definition wrap_calls :: "call list" where
  "wrap_calls =
     AddVertex 4096 0 # concat (replicate (2 ^ 64 - 1) [AddVertex 4128 0, RemoveVertex 4128])
     @ [AddVertex 4128 0]"


text \<open>
  A well-formed graph that owns exactly the vertices \<open>V\<close>, holds exactly the edges \<open>E\<close>
  and has the counter \<open>c\<close>, whatever the order of its containers.
\<close>

definition stands_for :: "DirectedGraph \<Rightarrow> addr set \<Rightarrow> (addr \<times> addr) set \<Rightarrow> size_t \<Rightarrow> bool" where
  "stands_for g V E c =
     (containers_ok g \<and> owned_ok g \<and> edges_ok g
      \<and> fst ` set (m_vertices g) = V \<and> edges_of g = E \<and> m_vertexCounter g = c)"

subsection \<open>The rendering, from its description\<close>

text \<open>
  The text the specification describes, for a set of ids and a set of pairs of ids: the
  header line; under \<open>vertices:\<close> one line per id, ascending; under \<open>edges:\<close>, for each
  id ascending, one line per pair that starts there, the targets ascending. Every line ends
  with a line feed, and the indentation is four spaces inside a section.
\<close>

definition render_id :: "size_t \<Rightarrow> string" where
  "render_id i = ''v'' @ to_string (unat i)"

definition render_spec :: "size_t set \<Rightarrow> (size_t \<times> size_t) set \<Rightarrow> string" where
  "render_spec V E =
     ''DirectedGraph:'' @ [CHR 0x0A] @ ''  vertices:'' @ [CHR 0x0A]
     @ concat (map (\<lambda>i. ''    '' @ render_id i @ [CHR 0x0A]) (sorted_list_of_set V))
     @ ''  edges:'' @ [CHR 0x0A]
     @ concat (map (\<lambda>i. concat (map (\<lambda>j. ''    '' @ render_id i @ '' -> '' @ render_id j @ [CHR 0x0A])
                                    (sorted_list_of_set (E `` {i}))))
                   (sorted_list_of_set V))"

subsection \<open>A sample state\<close>

text \<open>The store and the graph of the reference harness after its last \<^verbatim>\<open>addEdge\<close>.\<close>

definition harness_store :: store where
  "harness_store =
     [4096 \<mapsto> Vertex_new 0 0, 4128 \<mapsto> Vertex_new 1 1, 4160 \<mapsto> Vertex_new 2 2, 4192 \<mapsto> Vertex_new 3 3]"

definition harness_graph :: DirectedGraph where
  "harness_graph =
     \<lparr>m_vertexCounter = 4,
      m_vertices = [(4096, 4096), (4128, 4128), (4160, 4160), (4192, 4192)],
      m_edges = [(4096, [4096, 4128, 4192]), (4160, [4192])]\<rparr>"

text \<open>The same vertices and edges with the containers iterated in another order.\<close>

definition shuffled_graph :: DirectedGraph where
  "shuffled_graph =
     \<lparr>m_vertexCounter = 4,
      m_vertices = [(4192, 4192), (4096, 4096), (4160, 4160), (4128, 4128)],
      m_edges = [(4128, []), (4160, [4192]), (4096, [4192, 4096, 4128])]\<rparr>"

section \<open>Properties\<close>

subsection \<open>Decimal rendering of small ids\<close>

lemma to_string_small:
  "to_string 0 = ''0''" "to_string (Suc 0) = ''1''" "to_string 1 = ''1''"
  "to_string 2 = ''2''" "to_string 3 = ''3''"
  by (simp_all add: to_string.simps digit_char_def)

subsection \<open>The sample state\<close>

lemma harness_run:
  "run_calls [AddVertex 4096 0, AddVertex 4128 1, AddVertex 4160 2, AddVertex 4192 3,
              AddEdge 4096 4096, AddEdge 4096 4128, AddEdge 4096 4192, AddEdge 4160 4192,
              AddEdge 4160 4192] (Map.empty, DirectedGraph_new) =
     Inr ([0, 1, 2, 3], harness_store, harness_graph)"
  by (simp add: addVertex_def addEdge_def subscript_def DirectedGraph_new_def getID_def
      Vertex_new_def harness_store_def harness_graph_def)

lemma harness_owned_ok: "owned_ok harness_graph"
  by (simp add: owned_ok_def harness_graph_def)

lemma harness_containers_ok: "containers_ok harness_graph"
  by (simp add: containers_ok_def harness_graph_def)

lemma harness_edges_ok: "edges_ok harness_graph"
  by (simp add: edges_ok_def harness_graph_def owns_def)

lemma harness_edges_of:
  "edges_of harness_graph = {(4096, 4096), (4096, 4128), (4096, 4192), (4160, 4192)}"
  by (simp add: edges_of_def harness_graph_def)

subsection \<open>The subscript operator and the edges\<close>

lemma mem_edges_of:
  "(u, v) \<in> edges_of g \<longleftrightarrow> (\<exists>ss. (u, ss) \<in> set (m_edges g) \<and> v \<in> set ss)"
  by (auto simp: edges_of_def)

lemma subscript_fst: "fst (subscript k m) = (case map_of m k of Some ss \<Rightarrow> ss | None \<Rightarrow> [])"
  by (simp add: subscript_def split: option.splits)

lemma subscript_set: "set (snd (subscript k m)) = (if map_of m k = None then insert (k, []) (set m) else set m)"
  by (simp add: subscript_def split: option.splits)

lemma subscript_map_of:
  "map_of (snd (subscript k m)) k = Some (fst (subscript k m))"
  by (auto simp: subscript_def map_add_def split: option.splits)

lemma subscript_map_of_other:
  "x \<noteq> k \<Longrightarrow> map_of (snd (subscript k m)) x = map_of m x"
  by (auto simp: subscript_def map_add_def split: option.splits)

lemma subscript_keys:
  "map fst (snd (subscript k m)) = (if map_of m k = None then map fst m @ [k] else map fst m)"
  by (simp add: subscript_def split: option.splits)

lemma subscript_distinct:
  "distinct (map fst m) \<Longrightarrow> distinct (map fst (snd (subscript k m)))"
  by (auto simp: subscript_keys map_of_eq_None_iff)

lemma getSuccessors_const_subscript:
  "getSuccessors_const w (g\<lparr>m_edges := snd (subscript k (m_edges g))\<rparr>) = getSuccessors_const w g"
  by (cases "w = k") (simp_all add: getSuccessors_const_def subscript_map_of subscript_map_of_other subscript_fst)

lemma edges_of_subscript:
  "edges_of (g\<lparr>m_edges := snd (subscript k (m_edges g))\<rparr>) = edges_of g"
  by (auto simp: mem_edges_of subscript_set split: if_splits)

lemma edge_lines_subscript:
  "edge_lines h (snd (subscript k m)) vs = edge_lines h m vs"
proof (induction vs)
  case Nil
  show ?case by simp
next
  case (Cons pv vs)
  obtain p u where pv: "pv = (p, u)" by (cases pv)
  show ?case
  proof (cases "p = k")
    case True
    then show ?thesis
      using Cons.IH
      by (simp add: pv subscript_map_of subscript_fst toSortedVertices_def split: option.splits sum.splits)
  next
    case False
    then show ?thesis
      using Cons.IH by (simp add: pv subscript_map_of_other cong: option.case_cong sum.case_cong)
  qed
qed

lemma toString_subscript:
  "toString h (g\<lparr>m_edges := snd (subscript k (m_edges g))\<rparr>) = toString h g"
  by (simp add: toString_def getVertices_const_def edge_lines_subscript cong: sum.case_cong)

lemma subscript_same: "map_of m k \<noteq> None \<Longrightarrow> snd (subscript k m) = m"
  by (auto simp: subscript_def)

text \<open>
  Claim C9. In a state where every entry of \<open>m_vertices\<close> is keyed by the address it owns,
  the two overloads of \<^verbatim>\<open>getVertices\<close> return the same handles, in the same order, and
  the two overloads of \<^verbatim>\<open>getSuccessors\<close> return the same successors for every vertex;
  the non-const one leaves the vertices and the edges of the graph as they are. That a
  handle is to a const vertex or not is a matter of the C++ types and has no counterpart
  in the model.
\<close>

theorem overloads_agree:
  assumes "owned_ok g"
  shows "getVertices g = getVertices_const g
     \<and> fst (getSuccessors u g) = getSuccessors_const u g
     \<and> m_vertices (snd (getSuccessors u g)) = m_vertices g
     \<and> edges_of (snd (getSuccessors u g)) = edges_of g"
proof -
  have "\<forall>e \<in> set (m_vertices g). snd e = fst e"
    using assms by (auto simp: owned_ok_def)
  then have 1: "getVertices g = getVertices_const g"
    by (simp add: getVertices_def getVertices_const_def)
  have 2: "fst (getSuccessors u g) = getSuccessors_const u g"
    by (simp add: getSuccessors_def getSuccessors_const_def subscript_def split: option.splits)
  have "snd (getSuccessors u g) = g\<lparr>m_edges := snd (subscript u (m_edges g))\<rparr>"
    by (simp add: getSuccessors_def split: prod.splits)
  then have 3: "m_vertices (snd (getSuccessors u g)) = m_vertices g"
    and 4: "edges_of (snd (getSuccessors u g)) = edges_of g"
    by (simp_all add: edges_of_subscript)
  show ?thesis using 1 2 3 4 by simp
qed

theorem overloads_agree_witness:
  "owned_ok harness_graph
   \<and> getVertices harness_graph = getVertices_const harness_graph
   \<and> fst (getSuccessors 4096 harness_graph) = getSuccessors_const 4096 harness_graph
   \<and> m_vertices (snd (getSuccessors 4096 harness_graph)) = m_vertices harness_graph
   \<and> edges_of (snd (getSuccessors 4096 harness_graph)) = edges_of harness_graph"
  using overloads_agree [OF harness_owned_ok, of 4096] harness_owned_ok by simp

text \<open>
  Claim C10. A query (\<^verbatim>\<open>getVertices\<close>, \<^verbatim>\<open>getSuccessors\<close>, either overload, or
  \<^verbatim>\<open>toString\<close>) that returns leaves the store (so every id and payload), the owned
  vertices, the counter, the set of edges, the successors of every vertex and the rendering
  as they were, also when the non-const \<^verbatim>\<open>getSuccessors\<close> adds an empty entry to
  \<open>m_edges\<close>.
\<close>

theorem queries_frame:
  assumes "is_query c" and "step c (h, g) = Inr (r, h', g')"
  shows "h' = h \<and> m_vertices g' = m_vertices g \<and> m_vertexCounter g' = m_vertexCounter g
     \<and> edges_of g' = edges_of g \<and> (\<forall>w. getSuccessors_const w g' = getSuccessors_const w g)
     \<and> toString h' g' = toString h g"
proof (cases c)
  case (GetSuccessors u)
  have g': "g' = g\<lparr>m_edges := snd (subscript u (m_edges g))\<rparr>" and h': "h' = h"
    using assms(2) by (auto simp: GetSuccessors getSuccessors_def split: prod.splits)
  show ?thesis
    unfolding g' h'
    by (simp add: edges_of_subscript getSuccessors_const_subscript toString_subscript)
qed (use assms in \<open>auto split: sum.splits\<close>)

theorem queries_frame_witness:
  "is_query (GetSuccessors 4128)
   \<and> step (GetSuccessors 4128) (harness_store, harness_graph) =
       Inr (Handles [], harness_store, harness_graph\<lparr>m_edges := m_edges harness_graph @ [(4128, [])]\<rparr>)
   \<and> edges_of (harness_graph\<lparr>m_edges := m_edges harness_graph @ [(4128, [])]\<rparr>) = edges_of harness_graph
   \<and> toString harness_store (harness_graph\<lparr>m_edges := m_edges harness_graph @ [(4128, [])]\<rparr>)
       = toString harness_store harness_graph"
proof -
  have q: "is_query (GetSuccessors 4128)" by simp
  have s: "step (GetSuccessors 4128) (harness_store, harness_graph) =
       Inr (Handles [], harness_store, harness_graph\<lparr>m_edges := m_edges harness_graph @ [(4128, [])]\<rparr>)"
    by (simp add: getSuccessors_def subscript_def harness_graph_def)
  show ?thesis
    using queries_frame [OF q s] q s by simp
qed

subsection \<open>Removing a vertex\<close>

lemma owns_delete: "owns (g\<lparr>m_vertices := AList.delete u (m_vertices g), m_edges := e\<rparr>) x \<longleftrightarrow> (x \<noteq> u \<and> owns g x)"
  by (simp add: owns_def AList.delete_conv)

lemma eraseIncoming_set:
  "set (eraseIncoming u m) = (\<lambda>(k, ss). (k, removeAll u ss)) ` set m"
proof (induction m)
  case Nil
  show ?case by simp
next
  case (Cons e m)
  obtain k ss where e: "e = (k, ss)" by (cases e)
  show ?case using Cons.IH by (simp add: e)
qed

lemma eraseIncoming_keys: "map fst (eraseIncoming u m) = map fst m"
  by (induction u m rule: eraseIncoming.induct) simp_all

lemma map_of_eraseIncoming_None:
  "map_of m k = None \<Longrightarrow> map_of (eraseIncoming u m) k = None"
proof -
  assume "map_of m k = None"
  then have "k \<notin> set (map fst m)" by (simp add: map_of_eq_None_iff)
  then have "k \<notin> set (map fst (eraseIncoming u m))" by (simp add: eraseIncoming_keys)
  then show ?thesis by (simp add: map_of_eq_None_iff)
qed

text \<open>
  Claim C3. For a vertex \<open>u\<close> the graph owns, \<^verbatim>\<open>removeVertex\<close> returns true, and afterwards
  \<open>u\<close> is not among the handles of \<^verbatim>\<open>getVertices\<close> (either overload), \<open>m_edges\<close> has no
  entry for \<open>u\<close>, and no successor set contains \<open>u\<close>. For a vertex the graph does not
  own it returns false and the store and the graph are unchanged.
\<close>

theorem removeVertex_cascade:
  assumes "owned_ok g"
  shows "(owns g u \<longrightarrow>
           (\<exists>h' g'. removeVertex u (h, g) = (True, h', g')
              \<and> u \<notin> set (getVertices g') \<and> u \<notin> set (getVertices_const g')
              \<and> map_of (m_edges g') u = None
              \<and> (\<forall>(k, ss) \<in> set (m_edges g'). u \<notin> set ss)))
       \<and> (\<not> owns g u \<longrightarrow> removeVertex u (h, g) = (False, h, g))"
proof (intro conjI impI)
  assume "\<not> owns g u"
  then show "removeVertex u (h, g) = (False, h, g)"
    by (simp add: removeVertex_def owns_def)
next
  assume "owns g u"
  then obtain p where p: "map_of (m_vertices g) u = Some p"
    by (auto simp: owns_def)
  define g' where "g' = g\<lparr>m_vertices := AList.delete u (m_vertices g),
                         m_edges := eraseIncoming u (AList.delete u (m_edges g))\<rparr>"
  have r: "removeVertex u (h, g) = (True, h(p := None), g')"
    by (simp add: removeVertex_def p g'_def)
  have same: "\<forall>e \<in> set (m_vertices g). snd e = fst e"
    using assms by (auto simp: owned_ok_def)
  have k: "u \<notin> set (getVertices_const g')"
    by (simp add: getVertices_const_def g'_def AList.delete_keys)
  have "\<forall>e \<in> set (m_vertices g'). snd e = fst e"
    using same by (auto simp: g'_def AList.delete_eq)
  then have "getVertices g' = getVertices_const g'"
    by (simp add: getVertices_def getVertices_const_def)
  with k have k2: "u \<notin> set (getVertices g')" by simp
  have "map_of (AList.delete u (m_edges g)) u = None"
    by (simp add: AList.delete_conv)
  then have e1: "map_of (m_edges g') u = None"
    by (simp add: g'_def map_of_eraseIncoming_None)
  have e2: "\<forall>(k, ss) \<in> set (m_edges g'). u \<notin> set ss"
    by (auto simp: g'_def eraseIncoming_set)
  show "\<exists>h' g'. removeVertex u (h, g) = (True, h', g')
              \<and> u \<notin> set (getVertices g') \<and> u \<notin> set (getVertices_const g')
              \<and> map_of (m_edges g') u = None
              \<and> (\<forall>(k, ss) \<in> set (m_edges g'). u \<notin> set ss)"
    using r k k2 e1 e2 by blast
qed

theorem removeVertex_cascade_witness:
  "owned_ok harness_graph
   \<and> owns harness_graph 4128
   \<and> (\<exists>h' g'. removeVertex 4128 (harness_store, harness_graph) = (True, h', g')
              \<and> 4128 \<notin> set (getVertices g') \<and> 4128 \<notin> set (getVertices_const g')
              \<and> map_of (m_edges g') 4128 = None
              \<and> (\<forall>(k, ss) \<in> set (m_edges g'). 4128 \<notin> set ss))
   \<and> \<not> owns harness_graph 5000
   \<and> removeVertex 5000 (harness_store, harness_graph) = (False, harness_store, harness_graph)"
proof -
  have a: "owns harness_graph 4128" and b: "\<not> owns harness_graph 5000"
    by (simp_all add: owns_def harness_graph_def)
  show ?thesis
    using removeVertex_cascade [OF harness_owned_ok, of 4128 harness_store]
      removeVertex_cascade [OF harness_owned_ok, of 5000 harness_store] a b harness_owned_ok
    by simp
qed

subsection \<open>Adding and removing an edge\<close>

lemma mem_edges_of_distinct:
  assumes "distinct (map fst (m_edges g))"
  shows "(u, v) \<in> edges_of g \<longleftrightarrow> v \<in> set (getSuccessors_const u g)"
  using assms by (auto simp: mem_edges_of getSuccessors_const_def split: option.splits)

lemma getSuccessors_const_update:
  "getSuccessors_const w (g\<lparr>m_edges := AList.update u new m\<rparr>) =
     (if w = u then new else getSuccessors_const w (g\<lparr>m_edges := m\<rparr>))"
  by (simp add: getSuccessors_const_def AList.update_conv')

lemma getSuccessors_const_fst_subscript:
  "getSuccessors_const u g = fst (subscript u (m_edges g))"
  by (simp add: getSuccessors_const_def subscript_fst)

lemma m_edges_same: "g\<lparr>m_edges := m_edges g\<rparr> = g"
  by simp

lemma addEdge_new:
  assumes "owns g u" and "owns g v" and "v \<notin> set (getSuccessors_const u g)"
  shows "addEdge u v g =
     Inr (True, g\<lparr>m_edges := AList.update u (getSuccessors_const u g @ [v]) (snd (subscript u (m_edges g)))\<rparr>)"
proof -
  obtain ss e1 where s: "subscript u (m_edges g) = (ss, e1)"
    by (cases "subscript u (m_edges g)")
  show ?thesis
    using assms by (simp add: addEdge_def owns_def getSuccessors_const_fst_subscript s)
qed

lemma addEdge_old:
  assumes "owns g u" and "owns g v" and "v \<in> set (getSuccessors_const u g)"
  shows "addEdge u v g = Inr (False, g)"
proof -
  have "map_of (m_edges g) u \<noteq> None"
    using assms(3) by (cases "map_of (m_edges g) u") (simp_all add: getSuccessors_const_def)
  then have e: "snd (subscript u (m_edges g)) = m_edges g"
    by (rule subscript_same)
  obtain ss e1 where s: "subscript u (m_edges g) = (ss, e1)"
    by (cases "subscript u (m_edges g)")
  show ?thesis
    using assms e by (simp add: addEdge_def owns_def getSuccessors_const_fst_subscript s)
qed

lemma edges_of_eqI:
  assumes "distinct (map fst (m_edges g'))" and "distinct (map fst (m_edges g))"
    and "\<And>a b. b \<in> set (getSuccessors_const a g') \<longleftrightarrow> (a, b) \<in> E"
  shows "edges_of g' = E"
  using assms(3) by (auto simp: mem_edges_of_distinct [OF assms(1)])

text \<open>
  Claim C4. For vertices \<open>u\<close> and \<open>v\<close> the graph owns (they may be the same): if the edge
  is there, \<^verbatim>\<open>addEdge\<close> returns false and the graph is unchanged; if not, it returns true
  and the edges are the old ones and \<open>(u, v)\<close>, the vertices and the counter unchanged.
  In both cases a second call right after the first returns false and changes nothing.
\<close>

theorem addEdge_once:
  assumes "owns g u" and "owns g v" and "containers_ok g"
  shows "((u, v) \<in> edges_of g \<longrightarrow> addEdge u v g = Inr (False, g))
     \<and> ((u, v) \<notin> edges_of g \<longrightarrow>
          (\<exists>g'. addEdge u v g = Inr (True, g') \<and> edges_of g' = insert (u, v) (edges_of g)
             \<and> m_vertices g' = m_vertices g \<and> m_vertexCounter g' = m_vertexCounter g))
     \<and> (\<exists>b g1. addEdge u v g = Inr (b, g1) \<and> addEdge u v g1 = Inr (False, g1))"
proof -
  have d: "distinct (map fst (m_edges g))"
    using assms(3) by (simp add: containers_ok_def)
  define g' where
    "g' = g\<lparr>m_edges := AList.update u (getSuccessors_const u g @ [v]) (snd (subscript u (m_edges g)))\<rparr>"
  have d': "distinct (map fst (m_edges g'))"
    by (simp add: g'_def AList.distinct_update subscript_distinct d)
  have succ': "getSuccessors_const w g' = (if w = u then getSuccessors_const u g @ [v] else getSuccessors_const w g)" for w
    by (simp add: g'_def getSuccessors_const_update getSuccessors_const_subscript)
  have own': "owns g' x = owns g x" for x
    by (simp add: g'_def owns_def)
  have old: "addEdge u v g = Inr (False, g)" if "(u, v) \<in> edges_of g"
    using that assms(1,2) by (simp add: addEdge_old mem_edges_of_distinct [OF d])
  have new: "addEdge u v g = Inr (True, g')" if "(u, v) \<notin> edges_of g"
    using that assms(1,2) by (simp add: addEdge_new mem_edges_of_distinct [OF d] g'_def)
  have e': "edges_of g' = insert (u, v) (edges_of g)"
    by (rule edges_of_eqI [OF d' d]) (auto simp: succ' mem_edges_of_distinct [OF d])
  have again: "addEdge u v g' = Inr (False, g')"
    by (rule addEdge_old) (simp_all add: own' assms succ')
  have twice: "\<exists>b g1. addEdge u v g = Inr (b, g1) \<and> addEdge u v g1 = Inr (False, g1)"
  proof (cases "(u, v) \<in> edges_of g")
    case True
    then show ?thesis using old by blast
  next
    case False
    then show ?thesis using new again by blast
  qed
  have "m_vertices g' = m_vertices g \<and> m_vertexCounter g' = m_vertexCounter g"
    by (simp add: g'_def)
  then show ?thesis
    using old new e' twice by blast
qed

theorem addEdge_once_witness:
  "owns harness_graph 4160 \<and> owns harness_graph 4192 \<and> owns harness_graph 4128
   \<and> containers_ok harness_graph
   \<and> (4160, 4192) \<in> edges_of harness_graph
   \<and> addEdge 4160 4192 harness_graph = Inr (False, harness_graph)
   \<and> owns harness_graph 4096 \<and> (4096, 4096) \<in> edges_of harness_graph
   \<and> addEdge 4096 4096 harness_graph = Inr (False, harness_graph)
   \<and> (4160, 4128) \<notin> edges_of harness_graph
   \<and> (\<exists>g'. addEdge 4160 4128 harness_graph = Inr (True, g')
         \<and> edges_of g' = insert (4160, 4128) (edges_of harness_graph)
         \<and> m_vertices g' = m_vertices harness_graph
         \<and> m_vertexCounter g' = m_vertexCounter harness_graph)
   \<and> (\<exists>b g1. addEdge 4160 4128 harness_graph = Inr (b, g1) \<and> addEdge 4160 4128 g1 = Inr (False, g1))"
proof -
  have o: "owns harness_graph 4160" "owns harness_graph 4192" "owns harness_graph 4128"
    "owns harness_graph 4096"
    by (simp_all add: owns_def harness_graph_def)
  have e: "(4160, 4192) \<in> edges_of harness_graph" "(4160, 4128) \<notin> edges_of harness_graph"
    "(4096, 4096) \<in> edges_of harness_graph"
    by (simp_all add: harness_edges_of)
  show ?thesis
    using addEdge_once [OF o(1) o(2) harness_containers_ok]
      addEdge_once [OF o(1) o(3) harness_containers_ok]
      addEdge_once [OF o(4) o(4) harness_containers_ok] o e harness_containers_ok
    by simp
qed

text \<open>
  Claim C6. If \<open>u\<close> or \<open>v\<close> is not owned or the edge is not there, \<^verbatim>\<open>removeEdge\<close> returns
  false, and the vertices, the counter, the set of edges, the successors of every vertex
  and the rendering are what they were: the state is the same, or differs by an empty set
  that \<^verbatim>\<open>m_edges[&u]\<close> stored under \<open>u\<close>. If both are owned and the edge is there, it returns
  true and the edges are the old ones without \<open>(u, v)\<close>.
\<close>

theorem removeEdge_contract:
  assumes "containers_ok g"
  shows "(\<not> owns g u \<or> \<not> owns g v \<or> (u, v) \<notin> edges_of g \<longrightarrow>
          (\<exists>g'. removeEdge u v g = (False, g')
             \<and> (g' = g \<or> g' = g\<lparr>m_edges := m_edges g @ [(u, [])]\<rparr>)
             \<and> m_vertices g' = m_vertices g \<and> m_vertexCounter g' = m_vertexCounter g
             \<and> edges_of g' = edges_of g
             \<and> (\<forall>w. getSuccessors_const w g' = getSuccessors_const w g)
             \<and> toString h g' = toString h g))
     \<and> (owns g u \<and> owns g v \<and> (u, v) \<in> edges_of g \<longrightarrow>
          (\<exists>g'. removeEdge u v g = (True, g')
             \<and> m_vertices g' = m_vertices g \<and> m_vertexCounter g' = m_vertexCounter g
             \<and> edges_of g' = edges_of g - {(u, v)}))"
proof -
  have d: "distinct (map fst (m_edges g))"
    using assms by (simp add: containers_ok_def)
  define g0 where "g0 = g\<lparr>m_edges := snd (subscript u (m_edges g))\<rparr>"
  define g1 where
    "g1 = g\<lparr>m_edges := AList.update u (removeAll v (getSuccessors_const u g)) (snd (subscript u (m_edges g)))\<rparr>"
  have g0: "m_vertices g0 = m_vertices g \<and> m_vertexCounter g0 = m_vertexCounter g
             \<and> edges_of g0 = edges_of g
             \<and> (\<forall>w. getSuccessors_const w g0 = getSuccessors_const w g)
             \<and> toString h g0 = toString h g"
    by (simp add: g0_def edges_of_subscript getSuccessors_const_subscript toString_subscript)
  have shape: "g0 = g \<or> g0 = g\<lparr>m_edges := m_edges g @ [(u, [])]\<rparr>"
    by (cases "map_of (m_edges g) u") (simp_all add: g0_def subscript_def)
  have same: "m_vertices g = m_vertices g \<and> m_vertexCounter g = m_vertexCounter g
             \<and> edges_of g = edges_of g
             \<and> (\<forall>w. getSuccessors_const w g = getSuccessors_const w g)
             \<and> toString h g = toString h g"
    by simp
  have no: "removeEdge u v g = (False, g) \<or> removeEdge u v g = (False, g0)"
    if "\<not> owns g u \<or> \<not> owns g v \<or> (u, v) \<notin> edges_of g"
  proof -
    obtain ss e1 where s: "subscript u (m_edges g) = (ss, e1)"
      by (cases "subscript u (m_edges g)")
    show ?thesis
      using that
      by (auto simp: removeEdge_def owns_def g0_def mem_edges_of_distinct [OF d]
          getSuccessors_const_fst_subscript s)
  qed
  have yes: "removeEdge u v g = (True, g1)" if "owns g u \<and> owns g v \<and> (u, v) \<in> edges_of g"
  proof -
    obtain ss e1 where s: "subscript u (m_edges g) = (ss, e1)"
      by (cases "subscript u (m_edges g)")
    show ?thesis
      using that
      by (auto simp: removeEdge_def owns_def g1_def mem_edges_of_distinct [OF d]
          getSuccessors_const_fst_subscript s)
  qed
  have d1: "distinct (map fst (m_edges g1))"
    by (simp add: g1_def AList.distinct_update subscript_distinct d)
  have succ1: "getSuccessors_const w g1 = (if w = u then removeAll v (getSuccessors_const u g) else getSuccessors_const w g)" for w
    by (simp add: g1_def getSuccessors_const_update getSuccessors_const_subscript)
  have e1: "edges_of g1 = edges_of g - {(u, v)}"
    by (rule edges_of_eqI [OF d1 d]) (auto simp: succ1 mem_edges_of_distinct [OF d])
  have v1: "m_vertices g1 = m_vertices g \<and> m_vertexCounter g1 = m_vertexCounter g"
    by (simp add: g1_def)
  show ?thesis
  proof (intro conjI impI)
    assume a: "\<not> owns g u \<or> \<not> owns g v \<or> (u, v) \<notin> edges_of g"
    from no [OF a] show "\<exists>g'. removeEdge u v g = (False, g')
             \<and> (g' = g \<or> g' = g\<lparr>m_edges := m_edges g @ [(u, [])]\<rparr>)
             \<and> m_vertices g' = m_vertices g \<and> m_vertexCounter g' = m_vertexCounter g
             \<and> edges_of g' = edges_of g
             \<and> (\<forall>w. getSuccessors_const w g' = getSuccessors_const w g)
             \<and> toString h g' = toString h g"
      using g0 same shape by blast
  next
    assume a: "owns g u \<and> owns g v \<and> (u, v) \<in> edges_of g"
    from yes [OF a] e1 v1 show "\<exists>g'. removeEdge u v g = (True, g')
             \<and> m_vertices g' = m_vertices g \<and> m_vertexCounter g' = m_vertexCounter g
             \<and> edges_of g' = edges_of g - {(u, v)}"
      by blast
  qed
qed

theorem removeEdge_contract_witness:
  "containers_ok harness_graph
   \<and> (4128, 4096) \<notin> edges_of harness_graph
   \<and> (\<exists>g'. removeEdge 4128 4096 harness_graph = (False, g')
         \<and> (g' = harness_graph \<or> g' = harness_graph\<lparr>m_edges := m_edges harness_graph @ [(4128, [])]\<rparr>)
         \<and> m_vertices g' = m_vertices harness_graph
         \<and> m_vertexCounter g' = m_vertexCounter harness_graph
         \<and> edges_of g' = edges_of harness_graph
         \<and> (\<forall>w. getSuccessors_const w g' = getSuccessors_const w harness_graph)
         \<and> toString harness_store g' = toString harness_store harness_graph)
   \<and> (owns harness_graph 4096 \<and> owns harness_graph 4128 \<and> (4096, 4128) \<in> edges_of harness_graph)
   \<and> (\<exists>g'. removeEdge 4096 4128 harness_graph = (True, g')
         \<and> m_vertices g' = m_vertices harness_graph
         \<and> m_vertexCounter g' = m_vertexCounter harness_graph
         \<and> edges_of g' = edges_of harness_graph - {(4096, 4128)})"
proof -
  have o: "owns harness_graph 4096" "owns harness_graph 4128"
    by (simp_all add: owns_def harness_graph_def)
  have e: "(4128, 4096) \<notin> edges_of harness_graph" "(4096, 4128) \<in> edges_of harness_graph"
    by (simp_all add: harness_edges_of)
  show ?thesis
    using removeEdge_contract [OF harness_containers_ok, of 4128 4096 harness_store]
      removeEdge_contract [OF harness_containers_ok, of 4096 4128 harness_store]
      o e harness_containers_ok
    by simp
qed

subsection \<open>The invariant of the adjacency mapping\<close>

lemma owns_m_edges [simp]: "owns (g\<lparr>m_edges := e\<rparr>) x = owns g x"
  by (simp add: owns_def)

lemma set_update_subset: "set (AList.update k v m) \<subseteq> insert (k, v) (set m)"
  by (induction m) auto

lemma addEdge_alt:
  "addEdge u v g =
     (if \<not> owns g u \<or> \<not> owns g v then Inl AssertionFailed
      else if v \<in> set (fst (subscript u (m_edges g)))
           then Inr (False, g\<lparr>m_edges := snd (subscript u (m_edges g))\<rparr>)
           else Inr (True, g\<lparr>m_edges := AList.update u (fst (subscript u (m_edges g)) @ [v])
                                            (snd (subscript u (m_edges g)))\<rparr>))"
  by (simp add: addEdge_def owns_def split: prod.splits)

lemma removeEdge_alt:
  "removeEdge u v g =
     (if owns g u \<and> owns g v
      then if v \<in> set (fst (subscript u (m_edges g)))
           then (True, g\<lparr>m_edges := AList.update u (removeAll v (fst (subscript u (m_edges g))))
                                            (snd (subscript u (m_edges g)))\<rparr>)
           else (False, g\<lparr>m_edges := snd (subscript u (m_edges g))\<rparr>)
      else (False, g))"
  by (simp add: removeEdge_def owns_def split: prod.splits)

lemma edges_ok_new: "edges_ok DirectedGraph_new"
  by (simp add: edges_ok_def DirectedGraph_new_def)

lemma edges_ok_subscript:
  "edges_ok g \<Longrightarrow> edges_ok (g\<lparr>m_edges := snd (subscript k (m_edges g))\<rparr>)"
  by (auto simp: edges_ok_def subscript_set split: if_splits)

lemma edges_ok_update:
  assumes "edges_ok (g\<lparr>m_edges := m\<rparr>)" and "new \<noteq> [] \<longrightarrow> owns g k" and "\<forall>v \<in> set new. owns g v"
  shows "edges_ok (g\<lparr>m_edges := AList.update k new m\<rparr>)"
proof -
  have "e \<in> set m \<or> e = (k, new)" if "e \<in> set (AList.update k new m)" for e
    using that set_update_subset [of k new m] by auto
  then show ?thesis
    using assms by (fastforce simp: edges_ok_def)
qed

lemma subscript_members:
  "edges_ok g \<Longrightarrow> v \<in> set (fst (subscript k (m_edges g))) \<Longrightarrow> owns g v"
  by (auto simp: subscript_def edges_ok_def split: option.splits dest!: map_of_SomeD)

lemma edges_ok_addEdge:
  assumes "edges_ok g" and "addEdge u v g = Inr (b, g')"
  shows "edges_ok g'"
proof -
  obtain ss e1 where s: "subscript u (m_edges g) = (ss, e1)"
    by (cases "subscript u (m_edges g)")
  have ou: "owns g u" and ov: "owns g v"
    using assms(2) by (auto simp: addEdge_alt split: if_splits)
  have e1: "edges_ok (g\<lparr>m_edges := e1\<rparr>)"
    using edges_ok_subscript [OF assms(1), of u] by (simp add: s)
  have mem: "\<forall>x \<in> set ss. owns g x"
    using subscript_members [OF assms(1), of _ u] by (simp add: s)
  show ?thesis
  proof (cases "v \<in> set ss")
    case True
    then have "g' = g\<lparr>m_edges := e1\<rparr>"
      using assms(2) ou ov by (simp add: addEdge_alt s)
    then show ?thesis using e1 by simp
  next
    case False
    then have "g' = g\<lparr>m_edges := AList.update u (ss @ [v]) e1\<rparr>"
      using assms(2) ou ov by (simp add: addEdge_alt s)
    moreover have "edges_ok (g\<lparr>m_edges := AList.update u (ss @ [v]) e1\<rparr>)"
      by (rule edges_ok_update [OF e1]) (use ou ov mem in auto)
    ultimately show ?thesis by simp
  qed
qed

lemma edges_ok_removeEdge:
  assumes "edges_ok g" and "removeEdge u v g = (b, g')"
  shows "edges_ok g'"
proof -
  obtain ss e1 where s: "subscript u (m_edges g) = (ss, e1)"
    by (cases "subscript u (m_edges g)")
  have e1: "edges_ok (g\<lparr>m_edges := e1\<rparr>)"
    using edges_ok_subscript [OF assms(1), of u] by (simp add: s)
  have mem: "\<forall>x \<in> set ss. owns g x"
    using subscript_members [OF assms(1), of _ u] by (simp add: s)
  show ?thesis
  proof (cases "owns g u \<and> owns g v")
    case False
    then have "g' = g" using assms(2) by (auto simp: removeEdge_alt)
    then show ?thesis using assms(1) by simp
  next
    case True
    show ?thesis
    proof (cases "v \<in> set ss")
      case False
      then have "g' = g\<lparr>m_edges := e1\<rparr>"
        using assms(2) True by (auto simp: removeEdge_alt s)
      then show ?thesis using e1 by simp
    next
      case v: True
      then have "g' = g\<lparr>m_edges := AList.update u (removeAll v ss) e1\<rparr>"
        using assms(2) True by (auto simp: removeEdge_alt s)
      moreover have "edges_ok (g\<lparr>m_edges := AList.update u (removeAll v ss) e1\<rparr>)"
        by (rule edges_ok_update [OF e1]) (use True mem in auto)
      ultimately show ?thesis by simp
    qed
  qed
qed

lemma edges_ok_removeVertex:
  assumes "edges_ok g" and "removeVertex u (h, g) = (b, h', g')"
  shows "edges_ok g'"
proof (cases "map_of (m_vertices g) u")
  case None
  then have "g' = g" using assms(2) by (simp add: removeVertex_def)
  then show ?thesis using assms(1) by simp
next
  case (Some p)
  then have g': "g' = g\<lparr>m_vertices := AList.delete u (m_vertices g),
                        m_edges := eraseIncoming u (AList.delete u (m_edges g))\<rparr>"
    using assms(2) by (simp add: removeVertex_def)
  have own: "owns g' x \<longleftrightarrow> (x \<noteq> u \<and> owns g x)" for x
    unfolding g' by (rule owns_delete)
  have "(ss' \<noteq> [] \<longrightarrow> owns g' k) \<and> (\<forall>v \<in> set ss'. owns g' v)"
    if "(k, ss') \<in> set (m_edges g')" for k ss'
  proof -
    from that obtain ss where ss: "(k, ss) \<in> set (m_edges g)" "k \<noteq> u" "ss' = removeAll u ss"
      by (auto simp: g' eraseIncoming_set AList.delete_eq)
    from ss(1) assms(1) have "(ss \<noteq> [] \<longrightarrow> owns g k) \<and> (\<forall>v \<in> set ss. owns g v)"
      by (auto simp: edges_ok_def)
    then show ?thesis
      using ss(2,3) by (auto simp: own)
  qed
  then show ?thesis
    by (auto simp: edges_ok_def)
qed

lemma owns_addVertex:
  assumes "addVertex p d (h, g) = (q, h', g')" and "owns g x"
  shows "owns g' x"
  using assms by (auto simp: addVertex_def owns_def Let_def split: option.splits)

lemma m_edges_addVertex:
  assumes "addVertex p d (h, g) = (q, h', g')"
  shows "m_edges g' = m_edges g"
  using assms by (auto simp: addVertex_def Let_def split: option.splits)

lemma edges_ok_addVertex:
  assumes "edges_ok g" and "addVertex p d (h, g) = (q, h', g')"
  shows "edges_ok g'"
  using assms(1) owns_addVertex [OF assms(2)]
  by (fastforce simp: edges_ok_def m_edges_addVertex [OF assms(2)])

text \<open>
  Claim C7. Every operation that returns preserves the invariant of the adjacency mapping:
  every member of every successor set is an owned vertex, and every key is an owned vertex
  unless its successor set is empty.
\<close>

theorem adjacency_invariant:
  assumes "edges_ok g" and "step c (h, g) = Inr (r, h', g')"
  shows "edges_ok g'"
proof (cases c)
  case (AddVertex p d)
  then show ?thesis
    using assms by (auto split: if_splits prod.splits dest: edges_ok_addVertex)
next
  case (AddEdge u v)
  then show ?thesis
    using assms by (auto split: sum.splits dest: edges_ok_addEdge)
next
  case (RemoveVertex u)
  then show ?thesis
    using assms by (auto split: prod.splits dest: edges_ok_removeVertex)
next
  case (RemoveEdge u v)
  then show ?thesis
    using assms by (auto split: prod.splits dest: edges_ok_removeEdge)
next
  case (GetSuccessors u)
  then show ?thesis
    using assms edges_ok_subscript [of g u]
    by (auto simp: getSuccessors_def split: prod.splits)
qed (use assms in \<open>auto split: sum.splits option.splits\<close>)

theorem adjacency_invariant_witness:
  "edges_ok harness_graph
   \<and> step (RemoveVertex 4192) (harness_store, harness_graph) =
       Inr (Flag True, harness_store(4192 := None),
            \<lparr>m_vertexCounter = 4,
             m_vertices = [(4096, 4096), (4128, 4128), (4160, 4160)],
             m_edges = [(4096, [4096, 4128]), (4160, [])]\<rparr>)
   \<and> edges_ok \<lparr>m_vertexCounter = 4,
             m_vertices = [(4096, 4096), (4128, 4128), (4160, 4160)],
             m_edges = [(4096, [4096, 4128]), (4160, [])]\<rparr>"
proof -
  have s: "step (RemoveVertex 4192) (harness_store, harness_graph) =
       Inr (Flag True, harness_store(4192 := None),
            \<lparr>m_vertexCounter = 4,
             m_vertices = [(4096, 4096), (4128, 4128), (4160, 4160)],
             m_edges = [(4096, [4096, 4128]), (4160, [])]\<rparr>)"
    by (simp add: removeVertex_def harness_graph_def AList.delete_eq)
  show ?thesis
    using adjacency_invariant [OF harness_edges_ok s] harness_edges_ok s by simp
qed

text \<open>
  Claim C8. In a state that satisfies the invariant, both overloads of \<^verbatim>\<open>getSuccessors\<close>
  return exactly the vertices \<open>u\<close> has an edge to; the result is the empty sequence when
  \<open>u\<close> has no outgoing edge, when the graph does not own \<open>u\<close>, and for \<open>u\<close> after
  \<^verbatim>\<open>removeVertex(u)\<close>. Neither overload can fail: they return sequences.
\<close>

theorem getSuccessors_exact:
  assumes "containers_ok g" and "edges_ok g"
  shows "set (fst (getSuccessors u g)) = {v. (u, v) \<in> edges_of g}
     \<and> set (getSuccessors_const u g) = {v. (u, v) \<in> edges_of g}
     \<and> ((\<forall>v. (u, v) \<notin> edges_of g) \<longrightarrow>
          fst (getSuccessors u g) = [] \<and> getSuccessors_const u g = [])
     \<and> (\<not> owns g u \<longrightarrow> fst (getSuccessors u g) = [] \<and> getSuccessors_const u g = [])
     \<and> (\<forall>h. fst (getSuccessors u (snd (snd (removeVertex u (h, g))))) = []
            \<and> getSuccessors_const u (snd (snd (removeVertex u (h, g)))) = [])"
proof -
  have d: "distinct (map fst (m_edges g))"
    using assms(1) by (simp add: containers_ok_def)
  have same: "fst (getSuccessors w g0) = getSuccessors_const w g0" for w g0
    by (simp add: getSuccessors_def getSuccessors_const_fst_subscript split: prod.splits)
  have 1: "set (getSuccessors_const u g) = {v. (u, v) \<in> edges_of g}"
    by (auto simp: mem_edges_of_distinct [OF d])
  have 2: "getSuccessors_const u g = []" if "\<forall>v. (u, v) \<notin> edges_of g"
    using that 1 by simp
  have absent: "getSuccessors_const w g0 = []" if "edges_ok g0" "\<not> owns g0 w" for w g0
  proof (cases "map_of (m_edges g0) w")
    case None
    then show ?thesis by (simp add: getSuccessors_const_def)
  next
    case (Some ss)
    then have "(w, ss) \<in> set (m_edges g0)" by (rule map_of_SomeD)
    with that have "ss = []" by (auto simp: edges_ok_def)
    then show ?thesis by (simp add: getSuccessors_const_def Some)
  qed
  have 4: "getSuccessors_const u g' = []" if "removeVertex u (h, g) = (b, h', g')" for h b h' g'
  proof (cases "owns g u")
    case False
    then have "g' = g" using that by (simp add: removeVertex_def owns_def)
    then show ?thesis using absent [OF assms(2) False] by simp
  next
    case True
    then have "g' = g\<lparr>m_vertices := AList.delete u (m_vertices g),
                        m_edges := eraseIncoming u (AList.delete u (m_edges g))\<rparr>"
      using that by (auto simp: removeVertex_def owns_def)
    then have "\<not> owns g' u" by (simp add: owns_def AList.delete_conv)
    moreover have "edges_ok g'" using assms(2) that by (rule edges_ok_removeVertex)
    ultimately show ?thesis by (simp add: absent)
  qed
  have 5: "getSuccessors_const u (snd (snd (removeVertex u (h, g)))) = []" for h
    by (rule 4 [of h "fst (removeVertex u (h, g))" "fst (snd (removeVertex u (h, g)))"]) simp
  show ?thesis
    using 1 2 absent [OF assms(2)] 5 by (simp add: same)
qed

theorem getSuccessors_exact_witness:
  "containers_ok harness_graph \<and> edges_ok harness_graph
   \<and> set (fst (getSuccessors 4096 harness_graph)) = {v. (4096, v) \<in> edges_of harness_graph}
   \<and> set (getSuccessors_const 4096 harness_graph) = {4096, 4128, 4192}
   \<and> (\<forall>v. (4128, v) \<notin> edges_of harness_graph)
   \<and> fst (getSuccessors 4128 harness_graph) = [] \<and> getSuccessors_const 4128 harness_graph = []
   \<and> \<not> owns harness_graph 5000
   \<and> fst (getSuccessors 5000 harness_graph) = [] \<and> getSuccessors_const 5000 harness_graph = []
   \<and> fst (getSuccessors 4096 (snd (snd (removeVertex 4096 (harness_store, harness_graph))))) = []
   \<and> getSuccessors_const 4096 (snd (snd (removeVertex 4096 (harness_store, harness_graph)))) = []"
proof -
  have a: "\<forall>v. (4128, v) \<notin> edges_of harness_graph"
    by (simp add: harness_edges_of)
  have b: "\<not> owns harness_graph 5000"
    by (simp add: owns_def harness_graph_def)
  have c: "{v. (4096, v) \<in> edges_of harness_graph} = {4096, 4128, 4192}"
    by (auto simp: harness_edges_of)
  show ?thesis
    using getSuccessors_exact [OF harness_containers_ok harness_edges_ok, of 4096]
      getSuccessors_exact [OF harness_containers_ok harness_edges_ok, of 4128]
      getSuccessors_exact [OF harness_containers_ok harness_edges_ok, of 5000]
      a b c harness_containers_ok harness_edges_ok
    by simp
qed

subsection \<open>The ids that addVertex hands out\<close>

lemma step_counter:
  assumes "step c (h, g) = Inr (r, h', g')"
  shows "m_vertexCounter g' = (case c of AddVertex p d \<Rightarrow> m_vertexCounter g + 1 | _ \<Rightarrow> m_vertexCounter g)"
  using assms
  by (cases c)
    (auto simp: addVertex_def Let_def addEdge_alt removeVertex_def removeEdge_alt getSuccessors_def
      split: if_splits option.splits sum.splits prod.splits)

lemma step_Handle:
  assumes "step c (h, g) = Inr (Handle p, h', g')"
  shows "\<exists>d. c = AddVertex p d \<and> (h' p = None \<or> h' p = Some (Vertex_new (m_vertexCounter g) d))"
  using assms
  by (cases c) (auto simp: addVertex_def Let_def split: if_splits option.splits sum.splits prod.splits)

lemma step_not_AddVertex:
  assumes "step c (h, g) = Inr (r, h', g')" and "\<forall>p. r \<noteq> Handle p"
  shows "m_vertexCounter g' = m_vertexCounter g"
  using assms
  by (cases c)
    (auto simp: addVertex_def Let_def addEdge_alt removeVertex_def removeEdge_alt getSuccessors_def
      split: if_splits option.splits sum.splits prod.splits)

lemma upt_shift: "c # map (\<lambda>i. c + 1 + of_nat i) [0..<n] = map (\<lambda>i. c + of_nat i) [0..<Suc n]" for c :: "'a::len word"
proof -
  have "[0..<Suc n] = 0 # map Suc [0..<n]"
    by (simp add: upt_conv_Cons map_Suc_upt del: upt_Suc)
  then show ?thesis
    by (simp add: o_def add.assoc del: upt_Suc)
qed

lemma run_calls_ids:
  "run_calls cs (h, g) = Inr (ids, s) \<Longrightarrow> ids = map (\<lambda>i. m_vertexCounter g + of_nat i) [0..<length ids]"
proof (induction cs arbitrary: h g ids)
  case Nil
  then show ?case by simp
next
  case (Cons c cs)
  from Cons.prems obtain r h' g' where st: "step c (h, g) = Inr (r, h', g')"
    by (auto split: sum.splits)
  show ?case
  proof (cases "\<exists>p. r = Handle p")
    case True
    then obtain p where r: "r = Handle p" by blast
    from Cons.prems obtain v ids' where v: "h' p = Some v"
      and rest: "run_calls cs (h', g') = Inr (ids', s)" and ids: "ids = getID v # ids'"
      by (auto simp: st r split: option.splits sum.splits)
    from step_Handle [OF st [unfolded r]] v obtain d where
      c: "c = AddVertex p d" and "v = Vertex_new (m_vertexCounter g) d"
      by auto
    then have idv: "getID v = m_vertexCounter g"
      by (simp add: getID_def Vertex_new_def)
    have cnt: "m_vertexCounter g' = m_vertexCounter g + 1"
      using step_counter [OF st] by (simp add: c)
    have "ids' = map (\<lambda>i. m_vertexCounter g + 1 + of_nat i) [0..<length ids']"
      using Cons.IH [OF rest] by (simp add: cnt)
    then have "ids = m_vertexCounter g # map (\<lambda>i. m_vertexCounter g + 1 + of_nat i) [0..<length ids']"
      by (simp add: ids idv)
    then show ?thesis
      by (simp only: upt_shift) (simp add: ids)
  next
    case False
    then have rest: "run_calls cs (h', g') = Inr (ids, s)"
      using Cons.prems by (cases r) (auto simp: st)
    have "m_vertexCounter g' = m_vertexCounter g"
      using step_not_AddVertex [OF st] False by blast
    then show ?thesis
      using Cons.IH [OF rest] by simp
  qed
qed

lemma distinct_word_of_nat:
  assumes "n \<le> 2 ^ LENGTH('a)"
  shows "distinct (map of_nat [0..<n] :: 'a::len word list)"
proof -
  have "inj_on (of_nat :: nat \<Rightarrow> 'a word) {0..<n}"
  proof (rule inj_onI)
    fix x y assume "x \<in> {0..<n}" "y \<in> {0..<n}" "(of_nat x :: 'a word) = of_nat y"
    then have "unat (of_nat x :: 'a word) = unat (of_nat y :: 'a word)" by simp
    moreover have "x < 2 ^ LENGTH('a)" "y < 2 ^ LENGTH('a)"
      using \<open>x \<in> {0..<n}\<close> \<open>y \<in> {0..<n}\<close> assms by auto
    ultimately show "x = y" by (simp add: unat_of_nat)
  qed
  then show ?thesis by (simp add: distinct_map)
qed

lemma sorted_word_of_nat:
  assumes "n \<le> 2 ^ LENGTH('a)"
  shows "sorted_wrt (<) (map of_nat [0..<n] :: 'a::len word list)"
proof -
  have "(of_nat i :: 'a word) < of_nat j" if "i < j" "j < n" for i j
  proof -
    have "i < 2 ^ LENGTH('a)" "j < 2 ^ LENGTH('a)" using that assms by auto
    then show ?thesis using that(1) by (simp add: word_less_nat_alt unat_of_nat)
  qed
  then show ?thesis
    by (simp add: sorted_wrt_iff_nth_less)
qed

lemma run_calls_append:
  "run_calls (cs @ cs') s =
     (case run_calls cs s of
        Inl e \<Rightarrow> Inl e
      | Inr (ids, s') \<Rightarrow>
          (case run_calls cs' s' of Inl e \<Rightarrow> Inl e | Inr (ids', s'') \<Rightarrow> Inr (ids @ ids', s'')))"
proof (induction cs arbitrary: s)
  case Nil
  show ?case by (simp split: sum.splits)
next
  case (Cons c cs)
  show ?case
    by (simp add: Cons.IH split: sum.splits prod.splits result.splits option.splits)
qed

lemma wrap_round:
  "run_calls [AddVertex 4128 0, RemoveVertex 4128]
     ([4096 \<mapsto> Vertex_new 0 0], \<lparr>m_vertexCounter = c, m_vertices = [(4096, 4096)], m_edges = []\<rparr>) =
   Inr ([c], [4096 \<mapsto> Vertex_new 0 0],
        \<lparr>m_vertexCounter = c + 1, m_vertices = [(4096, 4096)], m_edges = []\<rparr>)"
  by (simp add: addVertex_def removeVertex_def getID_def Vertex_new_def AList.delete_eq fun_upd_twist)

lemma wrap_rounds:
  "run_calls (concat (replicate n [AddVertex 4128 0, RemoveVertex 4128]))
     ([4096 \<mapsto> Vertex_new 0 0], \<lparr>m_vertexCounter = c, m_vertices = [(4096, 4096)], m_edges = []\<rparr>) =
   Inr (map (\<lambda>i. c + of_nat i) [0..<n], [4096 \<mapsto> Vertex_new 0 0],
        \<lparr>m_vertexCounter = c + of_nat n, m_vertices = [(4096, 4096)], m_edges = []\<rparr>)"
proof -
  define R where "R = [AddVertex 4128 0, RemoveVertex 4128]"
  define H :: store where "H = [4096 \<mapsto> Vertex_new 0 0]"
  define G where "G = (\<lambda>c. \<lparr>m_vertexCounter = c, m_vertices = [(4096, 4096)], m_edges = []\<rparr>)"
  have round: "run_calls R (H, G c) = Inr ([c], H, G (c + 1))" for c
    unfolding R_def H_def G_def by (rule wrap_round)
  have "run_calls (concat (replicate n R)) (H, G c) = Inr (map (\<lambda>i. c + of_nat i) [0..<n], H, G (c + of_nat n))"
  proof (induction n arbitrary: c)
    case 0
    show ?case by simp
  next
    case (Suc n)
    have "run_calls (concat (replicate (Suc n) R)) (H, G c) = run_calls (R @ concat (replicate n R)) (H, G c)"
      by simp
    also have "\<dots> = Inr (c # map (\<lambda>i. c + 1 + of_nat i) [0..<n], H, G (c + 1 + of_nat n))"
      by (simp add: run_calls_append round Suc.IH)
    also have "\<dots> = Inr (map (\<lambda>i. c + of_nat i) [0..<Suc n], H, G (c + of_nat (Suc n)))"
      by (simp only: upt_shift) (simp add: add.assoc)
    finally show ?case .
  qed
  then show ?thesis
    unfolding R_def H_def G_def .
qed

lemma wrap_word: "(1 :: size_t) + of_nat (2 ^ 64 - 1) = 0"
  by simp

lemma wrap_run:
  "run_calls wrap_calls (Map.empty, DirectedGraph_new) =
     Inr (0 # map (\<lambda>i. 1 + of_nat i) [0..<2 ^ 64 - 1] @ [0],
          [4096 \<mapsto> Vertex_new 0 0, 4128 \<mapsto> Vertex_new 0 0],
          \<lparr>m_vertexCounter = 1, m_vertices = [(4096, 4096), (4128, 4128)], m_edges = []\<rparr>)"
proof -
  define R where "R = concat (replicate (2 ^ 64 - 1) [AddVertex 4128 0, RemoveVertex 4128])"
  define A where "A = [AddVertex 4096 0]"
  define B where "B = [AddVertex 4128 0]"
  define H :: store where "H = [4096 \<mapsto> Vertex_new 0 0]"
  define G where "G = (\<lambda>c. \<lparr>m_vertexCounter = c, m_vertices = [(4096, 4096)], m_edges = []\<rparr>)"
  have first: "run_calls A (Map.empty, DirectedGraph_new) = Inr ([0], H, G 1)"
    by (simp add: A_def H_def G_def addVertex_def DirectedGraph_new_def getID_def Vertex_new_def)
  have middle: "run_calls R (H, G 1) = Inr (map (\<lambda>i. 1 + of_nat i) [0..<2 ^ 64 - 1], H, G 0)"
    unfolding R_def H_def G_def by (simp only: wrap_rounds wrap_word)
  have last: "run_calls B (H, G 0) =
      Inr ([0], [4096 \<mapsto> Vertex_new 0 0, 4128 \<mapsto> Vertex_new 0 0],
           \<lparr>m_vertexCounter = 1, m_vertices = [(4096, 4096), (4128, 4128)], m_edges = []\<rparr>)"
    by (simp add: B_def H_def G_def addVertex_def getID_def Vertex_new_def)
  have split: "wrap_calls = A @ R @ B"
    by (simp add: wrap_calls_def A_def R_def B_def)
  show ?thesis
    unfolding split by (simp add: run_calls_append first middle last)
qed

lemma wrap_returned_ids:
  "returned_ids Map.empty wrap_calls = Some (0 # map (\<lambda>i. 1 + of_nat i) [0..<2 ^ 64 - 1] @ [0])"
  by (simp add: returned_ids_def wrap_run)

lemma wrap_owned_ids: "owned_ids_after Map.empty wrap_calls = Some [Some 0, Some 0]"
  by (simp add: owned_ids_after_def wrap_run ids_of_def getVertices_const_def id_at_def getID_def
      Vertex_new_def)

text \<open>
  What the counter does achieve. As long as a sequence of calls on a new graph,
  \<^verbatim>\<open>removeVertex\<close> and the edge operations among them, has returned at most \<open>2 ^ 64\<close>
  handles from \<^verbatim>\<open>addVertex\<close>, the ids of the handles are 0, 1, 2, ... in call order:
  distinct, strictly increasing from 0, none used again after its vertex is removed.
\<close>

lemma ids_increasing_until_wrap:
  assumes "returned_ids h0 cs = Some ids" and "length ids \<le> 2 ^ 64"
  shows "ids = map of_nat [0..<length ids] \<and> distinct ids \<and> sorted_wrt (<) ids"
proof -
  from assms(1) obtain s where "run_calls cs (h0, DirectedGraph_new) = Inr (ids, s)"
    by (auto simp: returned_ids_def split: sum.splits)
  from run_calls_ids [OF this] have eq: "ids = map of_nat [0..<length ids]"
    by (simp add: DirectedGraph_new_def)
  have "distinct (map of_nat [0..<length ids] :: size_t list)"
    by (rule distinct_word_of_nat) (use assms(2) in simp)
  moreover have "sorted_wrt (<) (map of_nat [0..<length ids] :: size_t list)"
    by (rule sorted_word_of_nat) (use assms(2) in simp)
  ultimately show ?thesis using eq by metis
qed

lemma ids_increasing_example:
  "returned_ids Map.empty [AddVertex 4096 7, AddVertex 4128 8, RemoveVertex 4096, AddVertex 4096 9] = Some [0, 1, 2]
   \<and> length [0, 1, 2 :: size_t] \<le> 2 ^ 64
   \<and> [0, 1, 2 :: size_t] = map of_nat [0..<length [0, 1, 2 :: size_t]]
   \<and> distinct [0, 1, 2 :: size_t] \<and> sorted_wrt (<) [0, 1, 2 :: size_t]"
proof -
  have r: "returned_ids Map.empty [AddVertex 4096 7, AddVertex 4128 8, RemoveVertex 4096, AddVertex 4096 9] = Some [0, 1, 2]"
    by (simp add: returned_ids_def addVertex_def removeVertex_def DirectedGraph_new_def getID_def
        Vertex_new_def AList.delete_eq)
  have l: "length [0, 1, 2 :: size_t] \<le> 2 ^ 64" by simp
  show ?thesis
    using ids_increasing_until_wrap [OF r l] r l by simp
qed

text \<open>
  Claim C5. Every handle that \<^verbatim>\<open>addVertex\<close> returns is to have an id of its own, the ids
  strictly increasing from 0 and never used again, as the comments of \<^verbatim>\<open>addVertex\<close> and
  of \<open>m_vertexCounter\<close> promise. The code does not keep this: \<^verbatim>\<open>m_vertexCounter++\<close> has no
  check, so in \<open>wrap_calls\<close> the counter is back at 0 for the last call. The ids returned
  are not distinct, the first and the last are both 0, and the graph ends owning two
  vertices of id 0.
\<close>

theorem id_reused_after_wrap:
  "map_option distinct (returned_ids Map.empty wrap_calls) = Some False
   \<and> map_option hd (returned_ids Map.empty wrap_calls) = Some 0
   \<and> map_option last (returned_ids Map.empty wrap_calls) = Some 0
   \<and> map_option length (returned_ids Map.empty wrap_calls) = Some (2 ^ 64 + 1)
   \<and> owned_ids_after Map.empty wrap_calls = Some [Some 0, Some 0]"
  by (simp add: wrap_returned_ids wrap_owned_ids)

subsection \<open>The rendering\<close>

lemma distinct_map_sort_key: "distinct (map f (sort_key f xs)) = distinct (map f xs)"
  by (induction xs) (simp_all add: distinct_insort_key)

lemma map_sort_key_sorted_list:
  assumes "distinct (map f xs)"
  shows "map f (sort_key f xs) = sorted_list_of_set (f ` set xs)"
proof (rule sorted_distinct_set_unique)
  show "sorted (map f (sort_key f xs))" by simp
  show "distinct (map f (sort_key f xs))" using assms by (simp add: distinct_map_sort_key)
  show "sorted (sorted_list_of_set (f ` set xs))" by simp
  show "distinct (sorted_list_of_set (f ` set xs))" by simp
  show "set (map f (sort_key f xs)) = set (sorted_list_of_set (f ` set xs))" by simp
qed

lemma inj_on_the: "None \<notin> A \<Longrightarrow> inj_on the A"
  by (rule inj_onI) (metis option.expand)

lemma owns_iff: "owns g p \<longleftrightarrow> p \<in> set (getVertices_const g)"
  by (simp add: owns_def getVertices_const_def map_of_eq_None_iff)

lemma store_ok_live:
  assumes "store_ok h g" and "owns g p"
  shows "\<exists>v. h p = Some v"
proof -
  have "id_at h p \<in> set (ids_of h g)"
    using assms(2) by (simp add: ids_of_def owns_iff)
  with assms(1) have "id_at h p \<noteq> None"
    by (cases "id_at h p") (auto simp: store_ok_def)
  then show ?thesis by (simp add: id_at_def)
qed

lemma store_ok_inj:
  assumes "store_ok h g"
  shows "inj_on (id_at h) (set (getVertices_const g))"
  using assms by (simp add: store_ok_def ids_of_def distinct_map)

lemma mem_vertex_ids:
  "i \<in> vertex_ids h g \<longleftrightarrow> (\<exists>p. owns g p \<and> id_at h p = Some i)"
  by (force simp: vertex_ids_def Option.in_these_eq ids_of_def owns_iff image_iff)

lemma mem_edge_ids:
  "(i, j) \<in> edge_ids h g \<longleftrightarrow>
     (\<exists>u v. (u, v) \<in> edges_of g \<and> id_at h u = Some i \<and> id_at h v = Some j)"
  by (auto simp: edge_ids_def Option.in_these_eq image_iff split: option.splits prod.splits)
    (force split: option.splits)+

lemma deref_all_live:
  assumes "\<forall>p \<in> set ps. h p \<noteq> None"
  shows "deref_all h ps = Inr (map (\<lambda>p. (p, the (h p))) ps)"
  using assms by (induction ps) auto

lemma toSortedVertices_live:
  assumes "\<forall>p \<in> set ps. h p \<noteq> None"
  shows "toSortedVertices h ps = Inr (sort_key (\<lambda>pv. getID (snd pv)) (map (\<lambda>p. (p, the (h p))) ps))"
  by (simp add: toSortedVertices_def deref_all_live [OF assms])

lemma id_at_live: "h p = Some v \<Longrightarrow> id_at h p = Some (getID v)"
  by (simp add: id_at_def)

text \<open>The ids of a sorted sequence of live vertices with distinct ids.\<close>

lemma sorted_ids:
  assumes live: "\<forall>p \<in> set ps. h p \<noteq> None" and d: "distinct (map (id_at h) ps)"
  shows "map (\<lambda>pv. getID (snd pv)) (sort_key (\<lambda>pv. getID (snd pv)) (map (\<lambda>p. (p, the (h p))) ps))
         = sorted_list_of_set (Option.these (id_at h ` set ps))"
proof -
  have eq: "map (\<lambda>pv. getID (snd pv)) (map (\<lambda>p. (p, the (h p))) ps) = map (\<lambda>p. the (id_at h p)) ps"
    using live by (auto simp: id_at_def)
  have "None \<notin> set (map (id_at h) ps)"
    using live by (auto simp: id_at_def)
  then have "inj_on the (set (map (id_at h) ps))"
    by (rule inj_on_the)
  with d have "distinct (map the (map (id_at h) ps))"
    by (simp only: distinct_map)
  then have d': "distinct (map (\<lambda>pv. getID (snd pv)) (map (\<lambda>p. (p, the (h p))) ps))"
    unfolding eq by (simp add: o_def)
  have "(\<lambda>pv. getID (snd pv)) ` set (map (\<lambda>p. (p, the (h p))) ps) = Option.these (id_at h ` set ps)"
    using live by (force simp: Option.in_these_eq id_at_def image_iff)
  then show ?thesis
    using map_sort_key_sorted_list [OF d'] by simp
qed

lemma vertex_line_id: "vertex_line v = ''    '' @ render_id (getID v) @ [CHR 0x0A]"
  by (simp add: vertex_line_def Vertex_toString_def render_id_def getID_def)

lemma edge_line_id:
  "edge_line u v = ''    '' @ render_id (getID u) @ '' -> '' @ render_id (getID v) @ [CHR 0x0A]"
  by (simp add: edge_line_def Vertex_toString_def render_id_def getID_def)

lemma graph_ok_live:
  assumes "graph_ok h g" and "owns g p"
  shows "h p \<noteq> None"
  using store_ok_live [of h g p] assms by (auto simp: graph_ok_def)

lemma edge_source_owned:
  assumes "edges_ok g" and "(a, b) \<in> edges_of g"
  shows "owns g a \<and> owns g b"
proof -
  from assms(2) obtain ss where ss: "(a, ss) \<in> set (m_edges g)" "b \<in> set ss"
    by (auto simp: mem_edges_of)
  then have "ss \<noteq> []" by auto
  with assms(1) ss show ?thesis by (auto simp: edges_ok_def)
qed

lemma successor_ids:
  assumes ok: "graph_ok h g" and own: "owns g p" and u: "h p = Some u"
  shows "Option.these (id_at h ` set (getSuccessors_const p g)) = edge_ids h g `` {getID u}"
proof -
  have d: "distinct (map fst (m_edges g))"
    using ok by (simp add: graph_ok_def containers_ok_def)
  have eok: "edges_ok g" and sok: "store_ok h g"
    using ok by (simp_all add: graph_ok_def)
  have idp: "id_at h p = Some (getID u)"
    using u by (rule id_at_live)
  show ?thesis
  proof (rule set_eqI)
    fix j
    show "j \<in> Option.these (id_at h ` set (getSuccessors_const p g)) \<longleftrightarrow> j \<in> edge_ids h g `` {getID u}"
    proof
      assume "j \<in> Option.these (id_at h ` set (getSuccessors_const p g))"
      then obtain q where q: "q \<in> set (getSuccessors_const p g)" "id_at h q = Some j"
        by (force simp: Option.in_these_eq image_iff)
      then have "(p, q) \<in> edges_of g"
        by (simp add: mem_edges_of_distinct [OF d])
      with q(2) idp have "(getID u, j) \<in> edge_ids h g"
        by (auto simp: mem_edge_ids)
      then show "j \<in> edge_ids h g `` {getID u}" by simp
    next
      assume "j \<in> edge_ids h g `` {getID u}"
      then obtain a b where ab: "(a, b) \<in> edges_of g" "id_at h a = Some (getID u)" "id_at h b = Some j"
        by (auto simp: mem_edge_ids)
      have "owns g a" using edge_source_owned [OF eok ab(1)] by simp
      then have "a = p"
        using store_ok_inj [OF sok] own ab(2) idp by (auto simp: inj_on_def owns_iff)
      then have "b \<in> set (getSuccessors_const p g)"
        using ab(1) by (simp add: mem_edges_of_distinct [OF d])
      with ab(3) show "j \<in> Option.these (id_at h ` set (getSuccessors_const p g))"
        by (force simp: Option.in_these_eq image_iff)
    qed
  qed
qed

lemma successors_sorted:
  assumes ok: "graph_ok h g" and own: "owns g p" and u: "h p = Some u"
  shows "\<exists>ssv. toSortedVertices h (getSuccessors_const p g) = Inr ssv
          \<and> map (\<lambda>qv. getID (snd qv)) ssv = sorted_list_of_set (edge_ids h g `` {getID u})"
proof -
  have eok: "edges_ok g" and sok: "store_ok h g" and cok: "containers_ok g"
    using ok by (simp_all add: graph_ok_def)
  have d: "distinct (map fst (m_edges g))"
    using cok by (simp add: containers_ok_def)
  have mem: "owns g q" if "q \<in> set (getSuccessors_const p g)" for q
  proof -
    from that have "(p, q) \<in> edges_of g" by (simp add: mem_edges_of_distinct [OF d])
    then show ?thesis using edge_source_owned [OF eok] by blast
  qed
  have live: "\<forall>q \<in> set (getSuccessors_const p g). h q \<noteq> None"
    using mem graph_ok_live [OF ok] by blast
  have ds: "distinct (getSuccessors_const p g)"
  proof (cases "map_of (m_edges g) p")
    case None
    then show ?thesis by (simp add: getSuccessors_const_def)
  next
    case (Some ss)
    then have "(p, ss) \<in> set (m_edges g)" by (rule map_of_SomeD)
    with cok have "distinct ss" by (auto simp: containers_ok_def)
    then show ?thesis by (simp add: getSuccessors_const_def Some)
  qed
  have "inj_on (id_at h) (set (getSuccessors_const p g))"
    by (rule inj_on_subset [OF store_ok_inj [OF sok]]) (use mem in \<open>auto simp: owns_iff\<close>)
  with ds have dm: "distinct (map (id_at h) (getSuccessors_const p g))"
    by (simp add: distinct_map)
  show ?thesis
    using toSortedVertices_live [OF live] sorted_ids [OF live dm] successor_ids [OF ok own u]
    by simp
qed

lemma edge_lines_render:
  assumes ok: "graph_ok h g" and vs: "\<forall>pv \<in> set vs. owns g (fst pv) \<and> h (fst pv) = Some (snd pv)"
  shows "edge_lines h (m_edges g) vs =
     Inr (concat (map (\<lambda>pv. concat (map (\<lambda>j. ''    '' @ render_id (getID (snd pv)) @ '' -> '' @ render_id j @ [CHR 0x0A])
                                        (sorted_list_of_set (edge_ids h g `` {getID (snd pv)})))) vs))"
  using vs
proof (induction vs)
  case Nil
  show ?case by simp
next
  case (Cons pv vs)
  obtain p u where pv: "pv = (p, u)" by (cases pv)
  from Cons.prems have own: "owns g p" and u: "h p = Some u"
    by (simp_all add: pv)
  from Cons.prems have rest: "\<forall>pv \<in> set vs. owns g (fst pv) \<and> h (fst pv) = Some (snd pv)"
    by simp
  note IH = Cons.IH [OF rest]
  from successors_sorted [OF ok own u] obtain ssv where
    ssv: "toSortedVertices h (getSuccessors_const p g) = Inr ssv"
    and ids: "map (\<lambda>qv. getID (snd qv)) ssv = sorted_list_of_set (edge_ids h g `` {getID u})"
    by blast
  have lines: "concat (map (\<lambda>qv. edge_line u (snd qv)) ssv) =
      concat (map (\<lambda>j. ''    '' @ render_id (getID u) @ '' -> '' @ render_id j @ [CHR 0x0A])
                  (sorted_list_of_set (edge_ids h g `` {getID u})))"
    unfolding ids [symmetric] by (simp add: edge_line_id o_def)
  show ?case
  proof (cases "map_of (m_edges g) p")
    case None
    then have "getSuccessors_const p g = []" by (simp add: getSuccessors_const_def)
    with ssv have "ssv = []" by (simp add: toSortedVertices_def)
    with lines have "concat (map (\<lambda>j. ''    '' @ render_id (getID u) @ '' -> '' @ render_id j @ [CHR 0x0A])
                  (sorted_list_of_set (edge_ids h g `` {getID u}))) = []"
      by simp
    then show ?thesis
      using IH None by (simp add: pv)
  next
    case (Some ss)
    then have "getSuccessors_const p g = ss" by (simp add: getSuccessors_const_def)
    with ssv have "toSortedVertices h ss = Inr ssv" by simp
    then show ?thesis
      using IH Some lines by (simp add: pv)
  qed
qed

lemma toString_render:
  assumes ok: "graph_ok h g"
  shows "toString h g = Inr (render_spec (vertex_ids h g) (edge_ids h g))"
proof -
  have sok: "store_ok h g" using ok by (simp add: graph_ok_def)
  define sv where
    "sv = sort_key (\<lambda>pv. getID (snd pv)) (map (\<lambda>p. (p, the (h p))) (getVertices_const g))"
  have live: "\<forall>p \<in> set (getVertices_const g). h p \<noteq> None"
    using graph_ok_live [OF ok] by (simp add: owns_iff)
  have sorted: "toSortedVertices h (getVertices_const g) = Inr sv"
    unfolding sv_def by (rule toSortedVertices_live [OF live])
  have "distinct (map (id_at h) (getVertices_const g))"
    using sok by (simp add: store_ok_def ids_of_def)
  from sorted_ids [OF live this]
  have ids: "map (\<lambda>pv. getID (snd pv)) sv = sorted_list_of_set (vertex_ids h g)"
    by (simp add: sv_def vertex_ids_def ids_of_def)
  have mem: "\<forall>pv \<in> set sv. owns g (fst pv) \<and> h (fst pv) = Some (snd pv)"
    using live by (auto simp: sv_def owns_iff)
  have vlines: "concat (map (\<lambda>pv. vertex_line (snd pv)) sv) =
      concat (map (\<lambda>i. ''    '' @ render_id i @ [CHR 0x0A]) (sorted_list_of_set (vertex_ids h g)))"
    unfolding ids [symmetric] by (simp add: vertex_line_id o_def)
  have elines: "concat (map (\<lambda>pv. concat (map (\<lambda>j. ''    '' @ render_id (getID (snd pv)) @ '' -> '' @ render_id j @ [CHR 0x0A])
                                        (sorted_list_of_set (edge_ids h g `` {getID (snd pv)})))) sv) =
      concat (map (\<lambda>i. concat (map (\<lambda>j. ''    '' @ render_id i @ '' -> '' @ render_id j @ [CHR 0x0A])
                                    (sorted_list_of_set (edge_ids h g `` {i}))))
                   (sorted_list_of_set (vertex_ids h g)))"
    unfolding ids [symmetric] by (simp add: o_def)
  note el = edge_lines_render [OF ok mem]
  show ?thesis
    by (simp only: toString_def sorted sum.case el render_spec_def vlines elines)
qed

lemma harness_store_ok: "store_ok harness_store harness_graph"
  by (simp add: store_ok_def ids_of_def getVertices_const_def harness_graph_def harness_store_def
      id_at_def getID_def Vertex_new_def)

lemma harness_graph_ok: "graph_ok harness_store harness_graph"
  by (simp add: graph_ok_def harness_containers_ok harness_owned_ok harness_edges_ok harness_store_ok)

lemma shuffled_graph_ok: "graph_ok harness_store shuffled_graph"
  by (simp add: graph_ok_def containers_ok_def owned_ok_def edges_ok_def owns_def store_ok_def
      ids_of_def getVertices_const_def shuffled_graph_def harness_store_def id_at_def getID_def
      Vertex_new_def)

lemma harness_vertex_ids: "vertex_ids harness_store harness_graph = {0, 1, 2, 3}"
  by (simp add: vertex_ids_def ids_of_def getVertices_const_def harness_graph_def harness_store_def
      id_at_def getID_def Vertex_new_def)

lemma shuffled_vertex_ids: "vertex_ids harness_store shuffled_graph = {0, 1, 2, 3}"
  by (auto simp: vertex_ids_def ids_of_def getVertices_const_def shuffled_graph_def harness_store_def
      id_at_def getID_def Vertex_new_def)

lemma harness_edge_ids: "edge_ids harness_store harness_graph = {(0, 0), (0, 1), (0, 3), (2, 3)}"
  by (simp add: edge_ids_def harness_edges_of harness_store_def id_at_def getID_def Vertex_new_def)

lemma shuffled_edge_ids: "edge_ids harness_store shuffled_graph = {(0, 0), (0, 1), (0, 3), (2, 3)}"
  by (auto simp: edge_ids_def edges_of_def shuffled_graph_def harness_store_def id_at_def getID_def
      Vertex_new_def)

lemma harness_toString:
  "toString harness_store harness_graph =
     Inr (''DirectedGraph:'' @ [CHR 0x0A] @
       ''  vertices:'' @ [CHR 0x0A] @
       ''    v0'' @ [CHR 0x0A] @
       ''    v1'' @ [CHR 0x0A] @
       ''    v2'' @ [CHR 0x0A] @
       ''    v3'' @ [CHR 0x0A] @
       ''  edges:'' @ [CHR 0x0A] @
       ''    v0 -> v0'' @ [CHR 0x0A] @
       ''    v0 -> v1'' @ [CHR 0x0A] @
       ''    v0 -> v3'' @ [CHR 0x0A] @
       ''    v2 -> v3'' @ [CHR 0x0A])"
  by (simp add: toString_def harness_graph_def harness_store_def Vertex_new_def toSortedVertices_def
      getVertices_const_def getID_def vertex_line_def edge_line_def Vertex_toString_def
      to_string_small)

text \<open>
  In a state that satisfies the invariants of the data model (\<open>graph_ok\<close>: no key or element
  twice, every entry keyed by the vertex it owns, the adjacency invariant, every owned
  vertex alive and no two of them with the same id), \<^verbatim>\<open>toString\<close> returns the text
  described: header, the owned ids ascending, then per id ascending its successors' ids
  ascending, a vertex without successors adding nothing. So two such states with the same
  set of ids and the same set of pairs of ids have the same rendering, whatever the order
  of their containers.
\<close>

lemma toString_deterministic_unique_ids:
  assumes "graph_ok h g"
  shows "toString h g = Inr (render_spec (vertex_ids h g) (edge_ids h g))
     \<and> (\<forall>h' g'. graph_ok h' g' \<and> vertex_ids h' g' = vertex_ids h g \<and> edge_ids h' g' = edge_ids h g
            \<longrightarrow> toString h' g' = toString h g)"
  using assms by (simp add: toString_render)

lemma shuffled_same_rendering:
  "graph_ok harness_store harness_graph
   \<and> toString harness_store harness_graph =
       Inr (render_spec (vertex_ids harness_store harness_graph) (edge_ids harness_store harness_graph))
   \<and> graph_ok harness_store shuffled_graph
   \<and> vertex_ids harness_store shuffled_graph = vertex_ids harness_store harness_graph
   \<and> edge_ids harness_store shuffled_graph = edge_ids harness_store harness_graph
   \<and> toString harness_store shuffled_graph = toString harness_store harness_graph
   \<and> toString harness_store shuffled_graph =
     Inr (''DirectedGraph:'' @ [CHR 0x0A] @
       ''  vertices:'' @ [CHR 0x0A] @
       ''    v0'' @ [CHR 0x0A] @
       ''    v1'' @ [CHR 0x0A] @
       ''    v2'' @ [CHR 0x0A] @
       ''    v3'' @ [CHR 0x0A] @
       ''  edges:'' @ [CHR 0x0A] @
       ''    v0 -> v0'' @ [CHR 0x0A] @
       ''    v0 -> v1'' @ [CHR 0x0A] @
       ''    v0 -> v3'' @ [CHR 0x0A] @
       ''    v2 -> v3'' @ [CHR 0x0A])"
proof -
  have v: "vertex_ids harness_store shuffled_graph = vertex_ids harness_store harness_graph"
    by (simp add: harness_vertex_ids shuffled_vertex_ids)
  have e: "edge_ids harness_store shuffled_graph = edge_ids harness_store harness_graph"
    by (simp add: harness_edge_ids shuffled_edge_ids)
  show ?thesis
    using toString_deterministic_unique_ids [OF harness_graph_ok] harness_graph_ok shuffled_graph_ok v e
      harness_toString
    by simp
qed

subsection \<open>The invariants hold in every state reached before the counter wraps\<close>

lemma unat_succ: "c + 1 \<noteq> 0 \<Longrightarrow> unat (c + 1) = Suc (unat c)" for c :: "'a::len word"
  using unatSuc [of c] by (simp add: add.commute)

lemma word_less_succ: "i < c \<Longrightarrow> c + 1 \<noteq> 0 \<Longrightarrow> i < c + 1" for c :: "'a::len word"
  by (simp add: word_less_nat_alt unat_succ)

lemma word_self_less_succ: "c + 1 \<noteq> 0 \<Longrightarrow> c < c + 1" for c :: "'a::len word"
  by (simp add: word_less_nat_alt unat_succ)

lemma store_ok_m_edges [simp]: "store_ok h (g\<lparr>m_edges := e\<rparr>) = store_ok h g"
  by (simp add: store_ok_def ids_of_def getVertices_const_def)

lemma ids_below_m_edges [simp]: "ids_below h (g\<lparr>m_edges := e\<rparr>) = ids_below h g"
  by (simp add: ids_below_def ids_of_def getVertices_const_def)

lemma owned_ok_m_edges [simp]: "owned_ok (g\<lparr>m_edges := e\<rparr>) = owned_ok g"
  by (simp add: owned_ok_def)

lemma containers_ok_edges:
  assumes "containers_ok g" and "distinct (map fst e)" and "\<forall>(k, ss) \<in> set e. distinct ss"
  shows "containers_ok (g\<lparr>m_edges := e\<rparr>)"
  using assms by (simp add: containers_ok_def)

lemma containers_ok_subscript:
  assumes "containers_ok g"
  shows "containers_ok (g\<lparr>m_edges := snd (subscript k (m_edges g))\<rparr>)"
  using assms by (auto simp: containers_ok_def subscript_distinct subscript_set split: if_splits)

lemma subscript_distinct_value:
  assumes "containers_ok g"
  shows "distinct (fst (subscript k (m_edges g)))"
  using assms
  by (auto simp: subscript_fst containers_ok_def split: option.splits dest!: map_of_SomeD)

lemma containers_ok_update:
  assumes "containers_ok g" and "distinct new"
  shows "containers_ok (g\<lparr>m_edges := AList.update k new (snd (subscript k (m_edges g)))\<rparr>)"
proof -
  have c: "containers_ok (g\<lparr>m_edges := snd (subscript k (m_edges g))\<rparr>)"
    using assms(1) by (rule containers_ok_subscript)
  have "e \<in> set (snd (subscript k (m_edges g))) \<or> e = (k, new)"
    if "e \<in> set (AList.update k new (snd (subscript k (m_edges g))))" for e
    using that set_update_subset [of k new "snd (subscript k (m_edges g))"] by auto
  then show ?thesis
    using c assms(2) by (fastforce simp: containers_ok_def AList.distinct_update)
qed

lemma containers_ok_step:
  assumes "containers_ok g" and "step c (h, g) = Inr (r, h', g')"
  shows "containers_ok g'"
proof (cases c)
  case (AddVertex p d)
  then show ?thesis
    using assms
    by (auto simp: addVertex_def Let_def containers_ok_def map_of_eq_None_iff
        split: if_splits option.splits)
next
  case (AddEdge u v)
  have "distinct (fst (subscript u (m_edges g)) @ [v])" if "v \<notin> set (fst (subscript u (m_edges g)))"
    using that subscript_distinct_value [OF assms(1), of u] by simp
  then show ?thesis
    using assms containers_ok_subscript [OF assms(1), of u] containers_ok_update [OF assms(1), of _ u]
    by (auto simp: AddEdge addEdge_alt split: if_splits sum.splits)
next
  case (RemoveVertex u)
  have "containers_ok (g\<lparr>m_vertices := AList.delete u (m_vertices g),
                        m_edges := eraseIncoming u (AList.delete u (m_edges g))\<rparr>)"
  proof -
    have "\<forall>(k, ss) \<in> set (eraseIncoming u (AList.delete u (m_edges g))). distinct ss"
      using assms(1)
      by (auto simp: containers_ok_def eraseIncoming_set AList.delete_eq distinct_removeAll)
    then show ?thesis
      using assms(1)
      by (simp add: containers_ok_def AList.distinct_delete eraseIncoming_keys)
  qed
  then show ?thesis
    using assms by (auto simp: RemoveVertex removeVertex_def split: option.splits)
next
  case (RemoveEdge u v)
  have "distinct (removeAll v (fst (subscript u (m_edges g))))"
    using subscript_distinct_value [OF assms(1), of u] by (simp add: distinct_removeAll)
  then show ?thesis
    using assms containers_ok_subscript [OF assms(1), of u] containers_ok_update [OF assms(1), of _ u]
    by (auto simp: RemoveEdge removeEdge_alt split: if_splits)
next
  case (GetSuccessors u)
  then show ?thesis
    using assms containers_ok_subscript [OF assms(1), of u]
    by (auto simp: getSuccessors_def split: prod.splits)
qed (use assms in \<open>auto split: sum.splits option.splits\<close>)

lemma owned_ok_step:
  assumes "owned_ok g" and "step c (h, g) = Inr (r, h', g')"
  shows "owned_ok g'"
proof (cases c)
  case (AddVertex p d)
  then show ?thesis
    using assms by (auto simp: addVertex_def Let_def owned_ok_def split: if_splits option.splits)
next
  case (AddEdge u v)
  then show ?thesis
    using assms by (auto simp: addEdge_alt split: if_splits sum.splits)
next
  case (RemoveVertex u)
  then show ?thesis
    using assms by (auto simp: removeVertex_def owned_ok_def AList.delete_eq split: option.splits)
next
  case (RemoveEdge u v)
  then show ?thesis
    using assms by (auto simp: removeEdge_alt split: if_splits)
next
  case (GetSuccessors u)
  then show ?thesis
    using assms by (auto simp: getSuccessors_def split: prod.splits)
qed (use assms in \<open>auto split: sum.splits option.splits\<close>)

lemma id_at_upd_other: "p \<notin> set ks \<Longrightarrow> map (id_at (h(p := x))) ks = map (id_at h) ks"
  by (induction ks) (auto simp: id_at_def)

lemma removeAll_filter: "removeAll u xs = filter (\<lambda>k. k \<noteq> u) xs"
  by (induction xs) auto

lemma store_step_addVertex:
  assumes s: "store_ok h g" and b: "ids_below h g" and fresh: "h p = None"
    and nowrap: "m_vertexCounter g + 1 \<noteq> 0" and a: "addVertex p d (h, g) = (q, h', g')"
  shows "store_ok h' g' \<and> ids_below h' g'"
proof -
  have notin: "p \<notin> set (getVertices_const g)"
    using store_ok_live [OF s, of p] fresh by (auto simp: owns_iff)
  then have none: "map_of (m_vertices g) p = None"
    by (simp add: getVertices_const_def map_of_eq_None_iff)
  from a none have h': "h' = h(p \<mapsto> Vertex_new (m_vertexCounter g) d)"
    and g': "g' = g\<lparr>m_vertexCounter := m_vertexCounter g + 1,
                     m_vertices := m_vertices g @ [(p, p)]\<rparr>"
    by (auto simp: addVertex_def Let_def)
  have ids: "ids_of h' g' = ids_of h g @ [Some (m_vertexCounter g)]"
    using id_at_upd_other [OF notin]
    by (simp add: ids_of_def getVertices_const_def h' g' id_at_def getID_def Vertex_new_def)
  have new: "Some (m_vertexCounter g) \<notin> set (ids_of h g)"
    using b by (auto simp: ids_below_def)
  have "store_ok h' g'"
    using s new by (simp add: store_ok_def ids)
  moreover have "ids_below h' g'"
  proof -
    have cnt: "m_vertexCounter g' = m_vertexCounter g + 1" by (simp add: g')
    show ?thesis
      unfolding ids_below_def ids cnt
      using b word_less_succ [OF _ nowrap] word_self_less_succ [OF nowrap]
      by (auto simp: ids_below_def)
  qed
  ultimately show ?thesis ..
qed

lemma store_step_removeVertex:
  assumes s: "store_ok h g" and b: "ids_below h g" and o: "owned_ok g"
    and a: "removeVertex u (h, g) = (r, h', g')"
  shows "store_ok h' g' \<and> ids_below h' g'"
proof (cases "map_of (m_vertices g) u")
  case None
  then show ?thesis using a s b by (simp add: removeVertex_def)
next
  case (Some q)
  then have "(u, q) \<in> set (m_vertices g)" by (rule map_of_SomeD)
  with o have "q = u" by (auto simp: owned_ok_def)
  with a Some have h': "h' = h(u := None)"
    and g': "g' = g\<lparr>m_vertices := AList.delete u (m_vertices g),
                     m_edges := eraseIncoming u (AList.delete u (m_edges g))\<rparr>"
    by (simp_all add: removeVertex_def)
  have keys: "getVertices_const g' = removeAll u (getVertices_const g)"
    by (simp add: g' getVertices_const_def AList.delete_keys)
  have "u \<notin> set (removeAll u (getVertices_const g))" by simp
  then have "map (id_at (h(u := None))) (removeAll u (getVertices_const g))
           = map (id_at h) (removeAll u (getVertices_const g))"
    by (rule id_at_upd_other)
  moreover have "removeAll u (getVertices_const g) = filter (\<lambda>k. k \<noteq> u) (getVertices_const g)"
    by (rule removeAll_filter)
  ultimately have ids: "ids_of h' g' = map (id_at h) (filter (\<lambda>k. k \<noteq> u) (getVertices_const g))"
    by (simp add: ids_of_def keys h')
  have sub: "set (ids_of h' g') \<subseteq> set (ids_of h g)"
    unfolding ids by (auto simp: ids_of_def)
  have "distinct (ids_of h' g')"
    unfolding ids using s by (simp add: store_ok_def ids_of_def distinct_map_filter)
  then have "store_ok h' g'"
    using s sub by (auto simp: store_ok_def)
  moreover have "ids_below h' g'"
  proof -
    have cnt: "m_vertexCounter g' = m_vertexCounter g" by (simp add: g')
    show ?thesis
      unfolding ids_below_def cnt using b sub by (auto simp: ids_below_def)
  qed
  ultimately show ?thesis ..
qed

lemma ids_of_setData:
  assumes "h p = Some v"
  shows "ids_of (h(p \<mapsto> setData d v)) g = ids_of h g"
proof -
  have "id_at (h(p \<mapsto> setData d v)) = id_at h"
    using assms by (auto simp: id_at_def fun_eq_iff getID_def setData_def)
  then show ?thesis by (simp add: ids_of_def)
qed

lemma store_step:
  assumes s: "store_ok h g" and b: "ids_below h g" and o: "owned_ok g"
    and st: "step c (h, g) = Inr (r, h', g')"
    and nowrap: "(\<exists>p d. c = AddVertex p d) \<longrightarrow> m_vertexCounter g + 1 \<noteq> 0"
  shows "store_ok h' g' \<and> ids_below h' g'"
proof (cases c)
  case (AddVertex p d)
  with st have fresh: "h p = None" and a: "addVertex p d (h, g) = (p, h', g') \<or> (\<exists>q. addVertex p d (h, g) = (q, h', g'))"
    by (auto split: if_splits prod.splits)
  from a obtain q where "addVertex p d (h, g) = (q, h', g')" by blast
  moreover have "m_vertexCounter g + 1 \<noteq> 0" using nowrap AddVertex by blast
  ultimately show ?thesis
    using store_step_addVertex [OF s b fresh] by blast
next
  case (AddEdge u v)
  with st have "\<exists>e. h' = h \<and> g' = g\<lparr>m_edges := e\<rparr>"
    by (auto simp: addEdge_alt split: if_splits)
  then show ?thesis using s b by auto
next
  case (RemoveVertex u)
  with st have "\<exists>b. removeVertex u (h, g) = (b, h', g')"
    by (auto split: prod.splits)
  then show ?thesis
    using store_step_removeVertex [OF s b o] by blast
next
  case (RemoveEdge u v)
  with st have "(h' = h \<and> g' = g) \<or> (\<exists>e. h' = h \<and> g' = g\<lparr>m_edges := e\<rparr>)"
    by (auto simp: removeEdge_alt split: if_splits)
  then show ?thesis using s b by auto
next
  case GetVertices
  with st have "h' = h \<and> g' = g" by simp
  then show ?thesis using s b by simp
next
  case GetVerticesConst
  with st have "h' = h \<and> g' = g" by simp
  then show ?thesis using s b by simp
next
  case (GetSuccessors u)
  with st have "\<exists>e. h' = h \<and> g' = g\<lparr>m_edges := e\<rparr>"
    by (auto simp: getSuccessors_def split: prod.splits)
  then show ?thesis using s b by auto
next
  case (GetSuccessorsConst u)
  with st have "h' = h \<and> g' = g" by simp
  then show ?thesis using s b by simp
next
  case ToString
  with st have "h' = h \<and> g' = g" by (auto split: sum.splits)
  then show ?thesis using s b by simp
next
  case (SetData p d)
  with st obtain v where "h p = Some v" and "h' = h(p \<mapsto> setData d v)" and "g' = g"
    by (auto split: option.splits)
  then show ?thesis
    using s b by (simp add: store_ok_def ids_below_def ids_of_setData)
qed

lemma graph_ok_new: "graph_ok h DirectedGraph_new \<and> ids_below h DirectedGraph_new"
  by (simp add: graph_ok_def containers_ok_def owned_ok_def edges_ok_def store_ok_def ids_below_def
      ids_of_def getVertices_const_def DirectedGraph_new_def)

lemma graph_ok_step:
  assumes ok: "graph_ok h g" and b: "ids_below h g"
    and st: "step c (h, g) = Inr (r, h', g')"
    and nowrap: "(\<exists>p d. c = AddVertex p d) \<longrightarrow> m_vertexCounter g + 1 \<noteq> 0"
  shows "graph_ok h' g' \<and> ids_below h' g'"
proof -
  have c: "containers_ok g" and o: "owned_ok g" and e: "edges_ok g" and s: "store_ok h g"
    using ok by (simp_all add: graph_ok_def)
  have e': "edges_ok g'"
  proof (cases c)
    case (AddVertex p d)
    then show ?thesis
      using e st by (auto split: if_splits prod.splits dest: edges_ok_addVertex)
  next
    case (AddEdge u v)
    then show ?thesis
      using e st by (auto split: sum.splits dest: edges_ok_addEdge)
  next
    case (RemoveVertex u)
    then show ?thesis
      using e st by (auto split: prod.splits dest: edges_ok_removeVertex)
  next
    case (RemoveEdge u v)
    then show ?thesis
      using e st by (auto split: prod.splits dest: edges_ok_removeEdge)
  next
    case (GetSuccessors u)
    then show ?thesis
      using e st edges_ok_subscript [of g u]
      by (auto simp: getSuccessors_def split: prod.splits)
  qed (use e st in \<open>auto split: sum.splits option.splits\<close>)
  show ?thesis
    using containers_ok_step [OF c st] owned_ok_step [OF o st] e' store_step [OF s b o st nowrap]
    by (simp add: graph_ok_def)
qed

lemma step_AddVertex_Handle:
  assumes "step (AddVertex p d) (h, g) = Inr (r, h', g')"
  shows "r = Handle p"
  using assms by (auto simp: addVertex_def Let_def split: if_splits option.splits)

text \<open>Every state that a sequence of calls reaches from a new graph before the counter wraps.\<close>

lemma run_calls_graph_ok:
  assumes "graph_ok h g" and "ids_below h g" and "run_calls cs (h, g) = Inr (ids, h', g')"
    and "unat (m_vertexCounter g) + length ids < 2 ^ 64"
  shows "graph_ok h' g' \<and> ids_below h' g'"
  using assms
proof (induction cs arbitrary: h g ids)
  case Nil
  then show ?case by simp
next
  case (Cons c cs)
  from Cons.prems(3) obtain r h1 g1 where st: "step c (h, g) = Inr (r, h1, g1)"
    by (auto split: sum.splits)
  show ?case
  proof (cases "\<exists>p. r = Handle p")
    case True
    then obtain p where r: "r = Handle p" by blast
    from Cons.prems(3) obtain v ids' where v: "h1 p = Some v"
      and rest: "run_calls cs (h1, g1) = Inr (ids', h', g')" and ids: "ids = getID v # ids'"
      by (auto simp: st r split: option.splits sum.splits)
    from step_Handle [OF st [unfolded r]] obtain d where c: "c = AddVertex p d" by auto
    have bound: "unat (m_vertexCounter g) + 1 < 2 ^ 64"
      using Cons.prems(4) by (simp add: ids)
    have nowrap: "m_vertexCounter g + 1 \<noteq> 0"
    proof
      assume z: "m_vertexCounter g + 1 = 0"
      have "unat (m_vertexCounter g) + unat (1 :: size_t) < 2 ^ LENGTH(64)"
        using bound by simp
      then have "unat (m_vertexCounter g + 1) = unat (m_vertexCounter g) + unat (1 :: size_t)"
        by (rule unat_add_lem [THEN iffD1])
      with z show False by simp
    qed
    have cnt: "m_vertexCounter g1 = m_vertexCounter g + 1"
      using step_counter [OF st] by (simp add: c)
    have ok1: "graph_ok h1 g1 \<and> ids_below h1 g1"
      using graph_ok_step [OF Cons.prems(1,2) st] nowrap by simp
    have "unat (m_vertexCounter g1) + length ids' < 2 ^ 64"
      using Cons.prems(4) by (simp add: cnt unat_succ [OF nowrap] ids)
    then show ?thesis
      using Cons.IH [OF _ _ rest] ok1 by simp
  next
    case False
    then have rest: "run_calls cs (h1, g1) = Inr (ids, h', g')"
      using Cons.prems(3) by (cases r) (auto simp: st)
    have cnt: "m_vertexCounter g1 = m_vertexCounter g"
      using step_not_AddVertex [OF st] False by blast
    have "\<not> (\<exists>p d. c = AddVertex p d)"
      using st False step_AddVertex_Handle by blast
    then have ok1: "graph_ok h1 g1 \<and> ids_below h1 g1"
      using graph_ok_step [OF Cons.prems(1,2) st] by simp
    show ?thesis
      using Cons.IH [OF _ _ rest] ok1 Cons.prems(4) by (simp add: cnt)
  qed
qed

lemma reachable_graph_ok:
  assumes "run_calls cs (h0, DirectedGraph_new) = Inr (ids, h, g)" and "length ids < 2 ^ 64"
  shows "graph_ok h g"
  using run_calls_graph_ok [OF _ _ assms(1)] graph_ok_new [of h0] assms(2)
  by (simp add: DirectedGraph_new_def)

subsection \<open>The end-to-end scenario\<close>

lemma reordered_entries:
  assumes "reordered g g'"
  shows "set (m_vertices g') = set (m_vertices g)"
    and "(\<lambda>(k, ss). (k, mset ss)) ` set (m_edges g') = (\<lambda>(k, ss). (k, mset ss)) ` set (m_edges g)"
proof -
  from assms have "mset (m_vertices g') = mset (m_vertices g)"
    by (simp add: reordered_def)
  then show "set (m_vertices g') = set (m_vertices g)"
    by (rule mset_eq_setD)
  from assms have "mset (map (\<lambda>(k, ss). (k, mset ss)) (m_edges g'))
          = mset (map (\<lambda>(k, ss). (k, mset ss)) (m_edges g))"
    by (simp add: reordered_def)
  then have "set (map (\<lambda>(k, ss). (k, mset ss)) (m_edges g'))
          = set (map (\<lambda>(k, ss). (k, mset ss)) (m_edges g))"
    by (rule mset_eq_setD)
  then show "(\<lambda>(k, ss). (k, mset ss)) ` set (m_edges g') = (\<lambda>(k, ss). (k, mset ss)) ` set (m_edges g)"
    by simp
qed

lemma reordered_entry:
  assumes "reordered g g'" and "(k, ss') \<in> set (m_edges g')"
  shows "\<exists>ss. (k, ss) \<in> set (m_edges g) \<and> mset ss = mset ss'"
proof -
  have "(k, mset ss') \<in> (\<lambda>(k, ss). (k, mset ss)) ` set (m_edges g')"
    using assms(2) by force
  then have "(k, mset ss') \<in> (\<lambda>(k, ss). (k, mset ss)) ` set (m_edges g)"
    by (simp only: reordered_entries(2) [OF assms(1)])
  then show ?thesis by auto
qed

lemma reordered_sym: "reordered g g' \<Longrightarrow> reordered g' g"
  by (simp add: reordered_def)

lemma reordered_owns:
  assumes "reordered g g'"
  shows "owns g' u = owns g u"
  by (simp add: owns_def map_of_eq_None_iff reordered_entries(1) [OF assms])

lemma reordered_edges_of:
  assumes "reordered g g'"
  shows "edges_of g' = edges_of g"
proof -
  have "edges_of b \<subseteq> edges_of a" if "reordered a b" for a b
  proof
    fix e assume "e \<in> edges_of b"
    then obtain u v ss' where e: "e = (u, v)" and "(u, ss') \<in> set (m_edges b)" "v \<in> set ss'"
      by (cases e) (auto simp: mem_edges_of)
    with reordered_entry [OF that] obtain ss where "(u, ss) \<in> set (m_edges a)" "mset ss = mset ss'"
      by blast
    with \<open>v \<in> set ss'\<close> have "(u, ss) \<in> set (m_edges a) \<and> v \<in> set ss"
      by (metis mset_eq_setD)
    then show "e \<in> edges_of a" by (auto simp: e mem_edges_of)
  qed
  from this [OF assms] this [OF reordered_sym [OF assms]] show ?thesis by blast
qed

lemma reordered_containers_ok:
  assumes "reordered g g'" and "containers_ok g"
  shows "containers_ok g'"
proof -
  have "mset (m_vertices g') = mset (m_vertices g)"
    using assms(1) by (simp add: reordered_def)
  then have "image_mset fst (mset (m_vertices g')) = image_mset fst (mset (m_vertices g))"
    by simp
  then have v: "mset (map fst (m_vertices g')) = mset (map fst (m_vertices g))"
    by simp
  have n: "map fst (map (\<lambda>(k, ss). (k, mset ss)) xs) = map fst xs" for xs :: "(addr \<times> addr list) list"
    by (induction xs) auto
  have "mset (map (\<lambda>(k, ss). (k, mset ss)) (m_edges g'))
          = mset (map (\<lambda>(k, ss). (k, mset ss)) (m_edges g))"
    using assms(1) by (simp add: reordered_def)
  then have "image_mset fst (mset (map (\<lambda>(k, ss). (k, mset ss)) (m_edges g')))
          = image_mset fst (mset (map (\<lambda>(k, ss). (k, mset ss)) (m_edges g)))"
    by simp
  then have "mset (map fst (map (\<lambda>(k, ss). (k, mset ss)) (m_edges g')))
          = mset (map fst (map (\<lambda>(k, ss). (k, mset ss)) (m_edges g)))"
    by (simp only: mset_map)
  then have e: "mset (map fst (m_edges g')) = mset (map fst (m_edges g))"
    by (simp only: n)
  have 1: "distinct (map fst (m_vertices g'))"
    using assms(2) mset_eq_imp_distinct_iff [OF v] by (simp add: containers_ok_def)
  have 2: "distinct (map fst (m_edges g'))"
    using assms(2) mset_eq_imp_distinct_iff [OF e] by (simp add: containers_ok_def)
  have 3: "distinct ss'" if "(k, ss') \<in> set (m_edges g')" for k ss'
  proof -
    from reordered_entry [OF assms(1) that] obtain ss where
      ss: "(k, ss) \<in> set (m_edges g)" "mset ss = mset ss'" by blast
    with assms(2) have "distinct ss" by (auto simp: containers_ok_def)
    with mset_eq_imp_distinct_iff [OF ss(2)] show ?thesis by simp
  qed
  show ?thesis
    using 1 2 3 by (auto simp: containers_ok_def)
qed

lemma reordered_owned_ok:
  assumes "reordered g g'" and "owned_ok g"
  shows "owned_ok g'"
  using assms(2) by (simp add: owned_ok_def reordered_entries(1) [OF assms(1)])

lemma reordered_edges_ok:
  assumes "reordered g g'" and "edges_ok g"
  shows "edges_ok g'"
proof -
  have "(ss' \<noteq> [] \<longrightarrow> owns g' k) \<and> (\<forall>v \<in> set ss'. owns g' v)"
    if "(k, ss') \<in> set (m_edges g')" for k ss'
  proof -
    from reordered_entry [OF assms(1) that] obtain ss where
      ss: "(k, ss) \<in> set (m_edges g)" "mset ss = mset ss'" by blast
    from ss(2) have "set ss = set ss'" by (rule mset_eq_setD)
    moreover from this have "ss' \<noteq> [] \<longrightarrow> ss \<noteq> []" by auto
    moreover from ss(1) assms(2) have "(ss \<noteq> [] \<longrightarrow> owns g k) \<and> (\<forall>v \<in> set ss. owns g v)"
      by (auto simp: edges_ok_def)
    ultimately show ?thesis
      by (simp add: reordered_owns [OF assms(1)])
  qed
  then show ?thesis by (auto simp: edges_ok_def)
qed

lemma stands_for_new: "stands_for DirectedGraph_new {} {} 0"
  by (simp add: stands_for_def containers_ok_def owned_ok_def edges_ok_def edges_of_def
      DirectedGraph_new_def)

lemma stands_for_reordered:
  assumes "stands_for g V E c" and "reordered g g'"
  shows "stands_for g' V E c"
  using assms reordered_containers_ok [OF assms(2)] reordered_owned_ok [OF assms(2)]
    reordered_edges_ok [OF assms(2)] reordered_edges_of [OF assms(2)]
    reordered_entries(1) [OF assms(2)]
  by (simp add: stands_for_def reordered_def)

lemma stands_for_owns: "stands_for g V E c \<Longrightarrow> owns g u \<longleftrightarrow> u \<in> V"
  by (auto simp: stands_for_def owns_def map_of_eq_None_iff)

lemma stands_for_addVertex:
  assumes "stands_for g V E c" and "p \<notin> V"
  shows "\<exists>g'. addVertex p d (h, g) = (p, h(p \<mapsto> Vertex_new c d), g')
            \<and> stands_for g' (insert p V) E (c + 1)"
proof -
  have none: "map_of (m_vertices g) p = None"
    using assms by (auto simp: stands_for_def map_of_eq_None_iff)
  define g' where "g' = g\<lparr>m_vertexCounter := c + 1, m_vertices := m_vertices g @ [(p, p)]\<rparr>"
  have a: "addVertex p d (h, g) = (p, h(p \<mapsto> Vertex_new c d), g')"
    using assms(1) none by (simp add: addVertex_def Let_def g'_def stands_for_def)
  have own: "owns g x \<Longrightarrow> owns g' x" for x
    by (auto simp: owns_def g'_def)
  have "edges_ok g'"
    using assms(1) own by (fastforce simp: stands_for_def edges_ok_def g'_def)
  moreover have "containers_ok g'"
    using assms by (auto simp: stands_for_def containers_ok_def g'_def)
  moreover have "owned_ok g'"
    using assms(1) by (auto simp: stands_for_def owned_ok_def g'_def)
  moreover have "fst ` set (m_vertices g') = insert p V" "edges_of g' = E" "m_vertexCounter g' = c + 1"
    using assms(1) by (auto simp: stands_for_def g'_def edges_of_def)
  ultimately have "stands_for g' (insert p V) E (c + 1)"
    by (simp add: stands_for_def)
  with a show ?thesis by blast
qed

lemma stands_for_addEdge:
  assumes s: "stands_for g V E c" and u: "u \<in> V" and v: "v \<in> V"
  shows "\<exists>g'. addEdge u v g = Inr ((u, v) \<notin> E, g') \<and> stands_for g' V (insert (u, v) E) c"
proof -
  have ou: "owns g u" and ov: "owns g v"
    using u v by (simp_all add: stands_for_owns [OF s])
  have c: "containers_ok g" and o: "owned_ok g" and e: "edges_ok g"
    and V: "fst ` set (m_vertices g) = V" and E: "edges_of g = E" and cnt: "m_vertexCounter g = c"
    using s by (simp_all add: stands_for_def)
  have d: "distinct (map fst (m_edges g))"
    using c by (simp add: containers_ok_def)
  have "\<exists>b g'. addEdge u v g = Inr (b, g')"
    using ou ov by (auto simp: addEdge_alt)
  then obtain b g' where a: "addEdge u v g = Inr (b, g')"
    by blast
  then have st: "step (AddEdge u v) (Map.empty, g) = Inr (Flag b, Map.empty, g')"
    by simp
  have b: "b = ((u, v) \<notin> E)"
    using a ou ov
    by (auto simp: addEdge_alt E [symmetric] mem_edges_of_distinct [OF d]
        getSuccessors_const_fst_subscript split: if_splits)
  have c': "containers_ok g'" by (rule containers_ok_step [OF c st])
  have o': "owned_ok g'" by (rule owned_ok_step [OF o st])
  have e': "edges_ok g'" by (rule edges_ok_addEdge [OF e a])
  have d': "distinct (map fst (m_edges g'))"
    using c' by (simp add: containers_ok_def)
  have same: "m_vertices g' = m_vertices g \<and> m_vertexCounter g' = m_vertexCounter g"
    using a ou ov by (auto simp: addEdge_alt split: if_splits)
  have succ: "getSuccessors_const w g' =
      (if w = u \<and> v \<notin> set (getSuccessors_const u g) then getSuccessors_const u g @ [v]
       else getSuccessors_const w g)" for w
    using a ou ov
    by (auto simp: addEdge_alt getSuccessors_const_update getSuccessors_const_subscript
        getSuccessors_const_fst_subscript [symmetric] split: if_splits)
  have "edges_of g' = insert (u, v) (edges_of g)"
    by (rule edges_of_eqI [OF d' d]) (auto simp: succ mem_edges_of_distinct [OF d])
  then have "stands_for g' V (insert (u, v) E) c"
    using c' o' e' same V E cnt by (simp add: stands_for_def)
  with a b show ?thesis by blast
qed

lemma render_spec_harness:
  "render_spec {0, 1, 2, 3} {(0, 0), (0, 1), (0, 3), (2, 3)} =
     ''DirectedGraph:'' @ [CHR 0x0A] @
     ''  vertices:'' @ [CHR 0x0A] @
     ''    v0'' @ [CHR 0x0A] @
     ''    v1'' @ [CHR 0x0A] @
     ''    v2'' @ [CHR 0x0A] @
     ''    v3'' @ [CHR 0x0A] @
     ''  edges:'' @ [CHR 0x0A] @
     ''    v0 -> v0'' @ [CHR 0x0A] @
     ''    v0 -> v1'' @ [CHR 0x0A] @
     ''    v0 -> v3'' @ [CHR 0x0A] @
     ''    v2 -> v3'' @ [CHR 0x0A]"
  using toString_render [OF harness_graph_ok] harness_toString
  by (simp add: harness_vertex_ids harness_edge_ids)

lemma scenario_render:
  assumes d: "distinct [a0, a1, a2, a3]"
    and s: "stands_for g {a0, a1, a2, a3} {(a0, a0), (a0, a1), (a0, a3), (a2, a3)} c"
    and h: "h = h0(a0 \<mapsto> Vertex_new 0 0, a1 \<mapsto> Vertex_new 1 1, a2 \<mapsto> Vertex_new 2 2,
                   a3 \<mapsto> Vertex_new 3 3)"
  shows "toString h g = Inr (render_spec {0, 1, 2, 3} {(0, 0), (0, 1), (0, 3), (2, 3)})"
proof -
  have ids: "id_at h a0 = Some 0" "id_at h a1 = Some 1" "id_at h a2 = Some 2" "id_at h a3 = Some 3"
    using d by (auto simp: h id_at_def getID_def Vertex_new_def)
  have keys: "set (getVertices_const g) = {a0, a1, a2, a3}"
    using s by (simp add: stands_for_def getVertices_const_def)
  have dk: "distinct (getVertices_const g)"
    using s by (simp add: stands_for_def containers_ok_def getVertices_const_def)
  have inj: "inj_on (id_at h) (set (getVertices_const g))"
    unfolding keys using d by (auto simp: inj_on_def ids)
  have "distinct (ids_of h g)"
    unfolding ids_of_def using dk inj by (simp add: distinct_map)
  moreover have "None \<notin> set (ids_of h g)"
    by (auto simp: ids_of_def keys ids)
  ultimately have "store_ok h g"
    by (simp add: store_ok_def)
  with s have ok: "graph_ok h g"
    by (simp add: graph_ok_def stands_for_def)
  have V: "vertex_ids h g = {0, 1, 2, 3}"
    by (simp add: vertex_ids_def ids_of_def keys ids)
  have "edges_of g = {(a0, a0), (a0, a1), (a0, a3), (a2, a3)}"
    using s by (simp add: stands_for_def)
  then have E: "edge_ids h g = {(0, 0), (0, 1), (0, 3), (2, 3)}"
    by (simp add: edge_ids_def ids)
  show ?thesis
    using toString_render [OF ok] by (simp only: V E)
qed

text \<open>
  Claim C1. On a new graph, \<^verbatim>\<open>addVertex\<close> with payloads 0, 1, 2, 3, then \<^verbatim>\<open>addEdge\<close> for
  0->0, 0->1, 0->3, 2->3 and 2->3 again: the first four calls return true, the fifth
  returns false, and \<^verbatim>\<open>toString\<close> returns exactly the eleven lines of the harness, each
  ended by a line feed. This holds whatever four distinct addresses the allocator hands
  out, whatever the store holds before, and in whatever order the containers iterate
  after each call.
\<close>

theorem scenario_toString:
  assumes d: "distinct [a0, a1, a2, a3]" and ord: "\<forall>i g. reordered g (ord i g)"
  shows "test_DirectedGraph_setup ord a0 a1 a2 a3 h0 =
     Inr ([True, True, True, True, False],
       ''DirectedGraph:'' @ [CHR 0x0A] @
       ''  vertices:'' @ [CHR 0x0A] @
       ''    v0'' @ [CHR 0x0A] @
       ''    v1'' @ [CHR 0x0A] @
       ''    v2'' @ [CHR 0x0A] @
       ''    v3'' @ [CHR 0x0A] @
       ''  edges:'' @ [CHR 0x0A] @
       ''    v0 -> v0'' @ [CHR 0x0A] @
       ''    v0 -> v1'' @ [CHR 0x0A] @
       ''    v0 -> v3'' @ [CHR 0x0A] @
       ''    v2 -> v3'' @ [CHR 0x0A])"
proof -
  note re = stands_for_reordered [OF _ ord [rule_format]]
  define h1 where "h1 = h0(a0 \<mapsto> Vertex_new 0 0)"
  define h2 where "h2 = h1(a1 \<mapsto> Vertex_new 1 1)"
  define h3 where "h3 = h2(a2 \<mapsto> Vertex_new 2 2)"
  define h4 where "h4 = h3(a3 \<mapsto> Vertex_new 3 3)"
  from stands_for_addVertex [OF stands_for_new, of a0 0 h0]
  obtain g1 where c1: "addVertex a0 0 (h0, DirectedGraph_new) = (a0, h1, g1)"
    and s1: "stands_for g1 {a0} {} 1"
    by (auto simp: h1_def)
  from stands_for_addVertex [OF re [OF s1, of 1], of a1 1 h1] d
  obtain g2 where c2: "addVertex a1 1 (h1, ord 1 g1) = (a1, h2, g2)"
    and s2: "stands_for g2 {a0, a1} {} 2"
    by (auto simp: h2_def insert_commute)
  from stands_for_addVertex [OF re [OF s2, of 2], of a2 2 h2] d
  obtain g3 where c3: "addVertex a2 2 (h2, ord 2 g2) = (a2, h3, g3)"
    and s3: "stands_for g3 {a0, a1, a2} {} 3"
    by (auto simp: h3_def insert_commute)
  from stands_for_addVertex [OF re [OF s3, of 3], of a3 3 h3] d
  obtain g4 where c4: "addVertex a3 3 (h3, ord 3 g3) = (a3, h4, g4)"
    and s4: "stands_for g4 {a0, a1, a2, a3} {} 4"
    by (auto simp: h4_def insert_commute)
  from stands_for_addEdge [OF re [OF s4, of 4], of a0 a0]
  obtain g5 where c5: "addEdge a0 a0 (ord 4 g4) = Inr (True, g5)"
    and s5: "stands_for g5 {a0, a1, a2, a3} {(a0, a0)} 4"
    by auto
  from stands_for_addEdge [OF re [OF s5, of 5], of a0 a1] d
  obtain g6 where c6: "addEdge a0 a1 (ord 5 g5) = Inr (True, g6)"
    and s6: "stands_for g6 {a0, a1, a2, a3} {(a0, a0), (a0, a1)} 4"
    by (auto simp: insert_commute)
  from stands_for_addEdge [OF re [OF s6, of 6], of a0 a3] d
  obtain g7 where c7: "addEdge a0 a3 (ord 6 g6) = Inr (True, g7)"
    and s7: "stands_for g7 {a0, a1, a2, a3} {(a0, a0), (a0, a1), (a0, a3)} 4"
    by (auto simp: insert_commute)
  from stands_for_addEdge [OF re [OF s7, of 7], of a2 a3] d
  obtain g8 where c8: "addEdge a2 a3 (ord 7 g7) = Inr (True, g8)"
    and s8: "stands_for g8 {a0, a1, a2, a3} {(a0, a0), (a0, a1), (a0, a3), (a2, a3)} 4"
    by (auto simp: insert_commute)
  from stands_for_addEdge [OF re [OF s8, of 8], of a2 a3]
  obtain g9 where c9: "addEdge a2 a3 (ord 8 g8) = Inr (False, g9)"
    and s9: "stands_for g9 {a0, a1, a2, a3} {(a0, a0), (a0, a1), (a0, a3), (a2, a3)} 4"
    by (auto simp: insert_absorb)
  have h4: "h4 = h0(a0 \<mapsto> Vertex_new 0 0, a1 \<mapsto> Vertex_new 1 1, a2 \<mapsto> Vertex_new 2 2,
                     a3 \<mapsto> Vertex_new 3 3)"
    by (simp add: h4_def h3_def h2_def h1_def)
  have t: "toString h4 (ord 9 g9) = Inr (render_spec {0, 1, 2, 3} {(0, 0), (0, 1), (0, 3), (2, 3)})"
    by (rule scenario_render [OF d re [OF s9, of 9] h4])
  show ?thesis
    by (simp only: test_DirectedGraph_setup_def c1 c2 c3 c4 c5 c6 c7 c8 c9 t prod.case sum.case
        render_spec_harness)
qed

lemma reordered_newest_first: "reordered g (newest_first g)"
  by (simp add: reordered_def newest_first_def rev_map o_def split_def)

theorem scenario_toString_witness:
  "distinct [4096, 4128, 4160, 4192 :: addr]
   \<and> (\<forall>i g. reordered g (newest_first g))
   \<and> test_DirectedGraph_setup (\<lambda>i. newest_first) 4096 4128 4160 4192 Map.empty =
     Inr ([True, True, True, True, False],
       ''DirectedGraph:'' @ [CHR 0x0A] @
       ''  vertices:'' @ [CHR 0x0A] @
       ''    v0'' @ [CHR 0x0A] @
       ''    v1'' @ [CHR 0x0A] @
       ''    v2'' @ [CHR 0x0A] @
       ''    v3'' @ [CHR 0x0A] @
       ''  edges:'' @ [CHR 0x0A] @
       ''    v0 -> v0'' @ [CHR 0x0A] @
       ''    v0 -> v1'' @ [CHR 0x0A] @
       ''    v0 -> v3'' @ [CHR 0x0A] @
       ''    v2 -> v3'' @ [CHR 0x0A])"
proof -
  have d: "distinct [4096, 4128, 4160, 4192 :: addr]" by simp
  have r: "\<forall>i g. reordered g ((\<lambda>i. newest_first) i g)"
    by (simp add: reordered_newest_first)
  show ?thesis
    using d r scenario_toString [OF d r, of Map.empty] by simp
qed

text \<open>The same run, evaluated: with the newest entry first it is the sort that orders the lines.\<close>

lemma scenario_newest_first_evaluated:
  "test_DirectedGraph_setup (\<lambda>i. newest_first) 4096 4128 4160 4192 Map.empty =
     Inr ([True, True, True, True, False],
       ''DirectedGraph:'' @ [CHR 0x0A] @
       ''  vertices:'' @ [CHR 0x0A] @
       ''    v0'' @ [CHR 0x0A] @
       ''    v1'' @ [CHR 0x0A] @
       ''    v2'' @ [CHR 0x0A] @
       ''    v3'' @ [CHR 0x0A] @
       ''  edges:'' @ [CHR 0x0A] @
       ''    v0 -> v0'' @ [CHR 0x0A] @
       ''    v0 -> v1'' @ [CHR 0x0A] @
       ''    v0 -> v3'' @ [CHR 0x0A] @
       ''    v2 -> v3'' @ [CHR 0x0A])"
  by (simp add: test_DirectedGraph_setup_def newest_first_def addVertex_def addEdge_def toString_def
      DirectedGraph_new_def subscript_def Vertex_new_def toSortedVertices_def
      getVertices_const_def getID_def vertex_line_def edge_line_def Vertex_toString_def
      to_string_small word_le_nat_alt)

subsection \<open>The rendering after the counter has wrapped\<close>



end
